theory Spec2Isabelle
  imports Complex_Main "HOL-Library.Monad_Syntax"
begin

section \<open>The node layer of the synthesizer graph (audio/proc.go)\<close>

text \<open>
  Every node of \<^verbatim>\<open>proc.go\<close> has a method \<^verbatim>\<open>Process(s []Sample)\<close> that first lets its
  upstream inputs fill buffers and then rewrites \<^verbatim>\<open>s\<close> in place, one index after the other.
  The embedding keeps that shape:

  \<^item> \<^verbatim>\<open>Sample\<close> (a Go \<^verbatim>\<open>float64\<close>) is a real number; infinities and NaN are not
    represented. Arithmetic is exact, except where a property depends on the rounding:
    the draw of the randomizer takes its three operations as parameters.
  \<^item> A buffer is a list. An index read outside a buffer is the Go run-time panic
    \<^verbatim>\<open>index out of range\<close>; a panic is the result \<open>None\<close>.
  \<^item> The loop \<^verbatim>\<open>for i := range s\<close> runs its body at the indices \<open>[0..<length s]\<close>, threading
    the local variables and the buffer.
  \<^item> The upstream calls (\<^verbatim>\<open>o.pitch.Process(s)\<close>, \<^verbatim>\<open>a.b.Process()\<close>, ...) belong to the graph
    framework. A node's \<open>Process\<close> here starts right after them: it receives the primary
    buffer \<open>s\<close> as the upstream left it and the secondary buffers as they were returned.
  \<^item> A trigger input is received as the list of the answers of \<^verbatim>\<open>isTrigger(t[i])\<close>, one per
    index of the trigger buffer \<^verbatim>\<open>t\<close>: every loop asks exactly once per index, in
    increasing order.
  \<^item> The constants \<^verbatim>\<open>waveHz\<close> and \<^verbatim>\<open>nSamples\<close> and the helpers \<^verbatim>\<open>fast.Exp2\<close> and \<^verbatim>\<open>fast.Sin\<close>
    are declared outside \<^verbatim>\<open>proc.go\<close>; they are parameters (\<open>waveHz\<close>, \<open>nSamples\<close>,
    \<open>exp2\<close>, \<open>fsin\<close>). The examples take \<open>2 powr x\<close> for \<open>exp2\<close>, the function that
    \<^verbatim>\<open>fast.Exp2\<close> approximates. The half \<^verbatim>\<open>waveHz/2\<close> is exact (for an integer constant
    Go takes the integer quotient, the same number when \<open>waveHz\<close> is even).
\<close>

type_synonym Sample = real

subsection \<open>Buffers and the range loop\<close>

text \<open>\<^verbatim>\<open>xs[i]\<close> as a read: it panics outside the buffer.\<close>

definition lookup :: "'a list \<Rightarrow> nat \<Rightarrow> 'a option" where
  "lookup xs i = (if i < length xs then Some (xs ! i) else None)"

text \<open>\<^verbatim>\<open>xs[i] = x\<close> as a write: it panics outside the buffer.\<close>

definition store :: "'a list \<Rightarrow> nat \<Rightarrow> 'a \<Rightarrow> 'a list option" where
  "store xs i x = (if i < length xs then Some (xs[i := x]) else None)"

text \<open>A loop over a list of indices whose body may panic.\<close>

primrec range_loop :: "(nat \<Rightarrow> 'a \<Rightarrow> 'a option) \<Rightarrow> nat list \<Rightarrow> 'a \<Rightarrow> 'a option" where
  "range_loop body [] x = Some x"
| "range_loop body (i # is) x =
     (case body i x of None \<Rightarrow> None | Some x' \<Rightarrow> range_loop body is x')"

subsection \<open>Pitch conversion\<close>

definition sampleToHz :: "(real \<Rightarrow> real) \<Rightarrow> Sample \<Rightarrow> real" where
  "sampleToHz exp2 s = 440 * exp2 (s * 10)"

subsection \<open>Square oscillator\<close>

record Square =
  Square_pos :: real

text \<open>
  One iteration of the loop of \<^verbatim>\<open>Square.Process\<close>. The locals are the phase \<open>p\<close> and
  the frequency \<open>hz\<close>; \<open>lastS\<close> is assigned once, before the loop.
\<close>

definition Square_sample ::
  "(real \<Rightarrow> real) \<Rightarrow> real \<Rightarrow> bool list \<Rightarrow> Sample \<Rightarrow> nat \<Rightarrow>
     real \<times> real \<times> Sample list \<Rightarrow> (real \<times> real \<times> Sample list) option" where
  "Square_sample exp2 waveHz t lastS i = (\<lambda>(p, hz, s).
     do {
       trigger \<leftarrow> lookup t i;
       let p = (if trigger then 0 else p);
       si \<leftarrow> lookup s i;
       let hz = (if si \<noteq> lastS then sampleToHz exp2 si else hz);
       let p = p + hz;
       let p = (if p > waveHz then p - waveHz else p);
       s \<leftarrow> store s i (if p > waveHz / 2 then - 1 else 1);
       Some (p, hz, s)
     })"

definition Square_loop ::
  "(real \<Rightarrow> real) \<Rightarrow> real \<Rightarrow> Square \<Rightarrow> Sample list \<Rightarrow> bool list \<Rightarrow>
     (real \<times> real \<times> Sample list) option" where
  "Square_loop exp2 waveHz osc s t =
     do {
       s0 \<leftarrow> lookup s 0;
       range_loop (Square_sample exp2 waveHz t s0) [0..<length s]
         (Square_pos osc, sampleToHz exp2 s0, s)
     }"

definition Square_Process ::
  "(real \<Rightarrow> real) \<Rightarrow> real \<Rightarrow> Square \<Rightarrow> Sample list \<Rightarrow> bool list \<Rightarrow>
     (Square \<times> Sample list) option" where
  "Square_Process exp2 waveHz osc s t =
     do {
       (p, hz, s) \<leftarrow> Square_loop exp2 waveHz osc s t;
       Some (osc\<lparr>Square_pos := p\<rparr>, s)
     }"

subsection \<open>Sine oscillator\<close>

record Sin =
  Sin_pos :: real

definition Sin_sample ::
  "(real \<Rightarrow> real) \<Rightarrow> (real \<Rightarrow> real) \<Rightarrow> real \<Rightarrow> bool list \<Rightarrow> Sample \<Rightarrow> nat \<Rightarrow>
     real \<times> real \<times> Sample list \<Rightarrow> (real \<times> real \<times> Sample list) option" where
  "Sin_sample exp2 fsin waveHz t lastS i = (\<lambda>(p, hz, s).
     do {
       trigger \<leftarrow> lookup t i;
       let p = (if trigger then 0 else p);
       si \<leftarrow> lookup s i;
       let hz = (if si \<noteq> lastS then sampleToHz exp2 si else hz);
       s \<leftarrow> store s i (fsin (p * 2 * pi));
       let p = p + hz / waveHz;
       let p = (if p > 100 then p - 100 else p);
       Some (p, hz, s)
     })"

definition Sin_loop ::
  "(real \<Rightarrow> real) \<Rightarrow> (real \<Rightarrow> real) \<Rightarrow> real \<Rightarrow> Sin \<Rightarrow> Sample list \<Rightarrow> bool list \<Rightarrow>
     (real \<times> real \<times> Sample list) option" where
  "Sin_loop exp2 fsin waveHz osc s t =
     do {
       s0 \<leftarrow> lookup s 0;
       range_loop (Sin_sample exp2 fsin waveHz t s0) [0..<length s]
         (Sin_pos osc, sampleToHz exp2 s0, s)
     }"

definition Sin_Process ::
  "(real \<Rightarrow> real) \<Rightarrow> (real \<Rightarrow> real) \<Rightarrow> real \<Rightarrow> Sin \<Rightarrow> Sample list \<Rightarrow> bool list \<Rightarrow>
     (Sin \<times> Sample list) option" where
  "Sin_Process exp2 fsin waveHz osc s t =
     do {
       (p, hz, s) \<leftarrow> Sin_loop exp2 fsin waveHz osc s t;
       Some (osc\<lparr>Sin_pos := p\<rparr>, s)
     }"

subsection \<open>Mul and Sum\<close>

text \<open>Both structs hold their two inputs and nothing else: there is no state to thread.\<close>

definition Mul_sample :: "Sample list \<Rightarrow> nat \<Rightarrow> Sample list \<Rightarrow> Sample list option" where
  "Mul_sample m i s =
     do {
       si \<leftarrow> lookup s i;
       mi \<leftarrow> lookup m i;
       store s i (si * mi)
     }"

definition Mul_Process :: "Sample list \<Rightarrow> Sample list \<Rightarrow> Sample list option" where
  "Mul_Process s m = range_loop (Mul_sample m) [0..<length s] s"

definition Sum_sample :: "Sample list \<Rightarrow> nat \<Rightarrow> Sample list \<Rightarrow> Sample list option" where
  "Sum_sample b i buf =
     do {
       x \<leftarrow> lookup buf i;
       bi \<leftarrow> lookup b i;
       store buf i (x + bi)
     }"

definition Sum_Process :: "Sample list \<Rightarrow> Sample list \<Rightarrow> Sample list option" where
  "Sum_Process buf b = range_loop (Sum_sample b) [0..<length buf] buf"

subsection \<open>Envelope generator\<close>

record Env =
  Env_v :: Sample
  Env_up :: bool
  Env_wasLow :: bool

text \<open>
  The loop body of \<^verbatim>\<open>Env.Process\<close> in its three blocks. The first two (lines 166 to 180)
  move the state machine: outside the attack phase a trigger or a gate above the level
  enters it, otherwise the level decays towards the gate; inside the attack phase the level
  rises. \<^verbatim>\<open>dec[i]\<close> and \<^verbatim>\<open>att[i]\<close> are read only on the paths that use them.
\<close>

definition Env_advance ::
  "real \<Rightarrow> Sample list \<Rightarrow> Sample list \<Rightarrow> bool \<Rightarrow> Sample \<Rightarrow> nat \<Rightarrow>
     bool \<times> Sample \<Rightarrow> (bool \<times> Sample) option" where
  "Env_advance waveHz att dec trigger si i = (\<lambda>(up, v).
     do {
       (up, v) \<leftarrow>
         (if \<not> up then
            if trigger \<or> v < si then Some (True, v)
            else if v > si then
              do {
                d \<leftarrow> lookup dec i;
                Some (up, if d > 0 then v - 1 / (d * waveHz * 10) else v)
              }
            else Some (up, v)
          else Some (up, v));
       (if up then
          do {
            a \<leftarrow> lookup att i;
            Some (up, if a > 0 then v + 1 / (a * waveHz * 10) else v)
          }
        else Some (up, v))
     })"

text \<open>The third block (lines 181 to 186) clamps the level.\<close>

definition Env_clamp :: "bool \<times> Sample \<Rightarrow> bool \<times> Sample" where
  "Env_clamp = (\<lambda>(up, v).
     if v > 1 then (False, 1)
     else if v < 0 then (up, 0)
     else (up, v))"

definition Env_sample ::
  "real \<Rightarrow> Sample list \<Rightarrow> Sample list \<Rightarrow> bool list \<Rightarrow> nat \<Rightarrow>
     bool \<times> Sample \<times> Sample list \<Rightarrow> (bool \<times> Sample \<times> Sample list) option" where
  "Env_sample waveHz att dec t i = (\<lambda>(up, v, s).
     do {
       trigger \<leftarrow> lookup t i;
       si \<leftarrow> lookup s i;
       uv \<leftarrow> Env_advance waveHz att dec trigger si i (up, v);
       let (up, v) = Env_clamp uv;
       s \<leftarrow> store s i v;
       Some (up, v, s)
     })"

definition Env_Process ::
  "real \<Rightarrow> Env \<Rightarrow> Sample list \<Rightarrow> Sample list \<Rightarrow> Sample list \<Rightarrow> bool list \<Rightarrow>
     (Env \<times> Sample list) option" where
  "Env_Process waveHz e s att dec t =
     do {
       (up, v, s) \<leftarrow> range_loop (Env_sample waveHz att dec t) [0..<length s]
                      (Env_up e, Env_v e, s);
       Some (e\<lparr>Env_v := v, Env_up := up\<rparr>, s)
     }"

subsection \<open>Clip and Value\<close>

text \<open>Neither loop reads a second buffer, so neither can panic.\<close>

definition Clip_sample :: "nat \<Rightarrow> Sample list \<Rightarrow> Sample list" where
  "Clip_sample i s =
     (let v = s ! i in
      if v > 1 then s[i := 1]
      else if v < - 1 then s[i := - 1]
      else s)"

definition Clip_Process :: "Sample list \<Rightarrow> Sample list" where
  "Clip_Process s = fold Clip_sample [0..<length s] s"

type_synonym Value = Sample

definition Value_Process :: "Value \<Rightarrow> Sample list \<Rightarrow> Sample list" where
  "Value_Process v s = fold (\<lambda>i s. s[i := v]) [0..<length s] s"

subsection \<open>Sample-and-hold randomizer\<close>







subsection \<open>Fan-out: Dup and Output\<close>

text \<open>
  A \<^verbatim>\<open>Processor\<close> is called with a buffer, writes into it and changes the state of the
  nodes behind it: a function from that state \<open>'w\<close> and the buffer to the new state and
  the buffer as written. An \<^verbatim>\<open>*Output\<close> is the address of an \<^verbatim>\<open>Output\<close> struct; its only
  field is the pointer to its \<^verbatim>\<open>Dup\<close>. A \<^verbatim>\<open>nil\<close> slice is \<open>None\<close>.
\<close>

type_synonym 'w Processor = "'w \<Rightarrow> Sample list \<Rightarrow> 'w \<times> Sample list"

type_synonym Output = nat

record 'w Dup =
  Dup_src :: "'w Processor"
  Dup_outs :: "Output list"
  Dup_buf :: "Sample list option"
  Dup_done :: bool

text \<open>
  The store around one \<^verbatim>\<open>Dup\<close>: the struct, the state of the nodes upstream of it, the
  next unused address for an \<^verbatim>\<open>Output\<close>, and a counter of the calls of \<^verbatim>\<open>src.Process\<close>
  made so far (the counter is not in the code; it makes the calls observable).
\<close>

record 'w heap =
  heap_dup :: "'w Dup"
  heap_up :: 'w
  heap_next :: Output
  heap_evals :: nat

definition NewDup :: "'w Processor \<Rightarrow> 'w Dup" where
  "NewDup src = \<lparr>Dup_src = src, Dup_outs = [], Dup_buf = None, Dup_done = False\<rparr>"

definition Dup_Tick :: "'w Dup \<Rightarrow> 'w Dup" where
  "Dup_Tick d = d\<lparr>Dup_done := False\<rparr>"

definition Dup_SetSource :: "'w Processor \<Rightarrow> 'w Dup \<Rightarrow> 'w Dup" where
  "Dup_SetSource p d = d\<lparr>Dup_src := p\<rparr>"

text \<open>\<^verbatim>\<open>Dup.Output\<close>, given the address \<open>out\<close> of the new struct.\<close>

definition Dup_Output :: "nat \<Rightarrow> Output \<Rightarrow> 'w Dup \<Rightarrow> 'w Dup" where
  "Dup_Output nSamples out d =
     (let d = d\<lparr>Dup_outs := Dup_outs d @ [out]\<rparr> in
      if length (Dup_outs d) > 1 \<and> Dup_buf d = None
      then d\<lparr>Dup_buf := Some (replicate nSamples 0)\<rparr>
      else d)"

definition new_Output :: "nat \<Rightarrow> 'w heap \<Rightarrow> Output \<times> 'w heap" where
  "new_Output nSamples h =
     (let out = heap_next h in
      (out, h\<lparr>heap_dup := Dup_Output nSamples out (heap_dup h), heap_next := Suc out\<rparr>))"

text \<open>The elements of a slice; \<^verbatim>\<open>nil\<close> has none.\<close>

definition slice :: "'a list option \<Rightarrow> 'a list" where
  "slice b = (case b of None \<Rightarrow> [] | Some xs \<Rightarrow> xs)"

text \<open>
  The builtin \<^verbatim>\<open>copy(dst, src)\<close> overwrites the first \<open>min (length dst) (length src)\<close>
  elements of \<open>dst\<close>.
\<close>

definition copy :: "'a list \<Rightarrow> 'a list \<Rightarrow> 'a list" where
  "copy dst src = take (length dst) src @ drop (length src) dst"

text \<open>The call \<^verbatim>\<open>o.d.src.Process(b)\<close>.\<close>

definition src_Process :: "'w heap \<Rightarrow> Sample list \<Rightarrow> 'w heap \<times> Sample list" where
  "src_Process h b =
     (let (w, b') = Dup_src (heap_dup h) (heap_up h) b in
      (h\<lparr>heap_up := w, heap_evals := Suc (heap_evals h)\<rparr>, b'))"

definition set_done :: "'w heap \<Rightarrow> 'w heap" where
  "set_done h = h\<lparr>heap_dup := (heap_dup h)\<lparr>Dup_done := True\<rparr>\<rparr>"

text \<open>
  \<^verbatim>\<open>Output.Process\<close> reads its receiver only through \<^verbatim>\<open>o.d\<close>. The result is the store and
  the caller's buffer \<open>p\<close> after the call.
\<close>

definition Output_Process :: "Output \<Rightarrow> 'w heap \<Rightarrow> Sample list \<Rightarrow> 'w heap \<times> Sample list" where
  "Output_Process out h p =
     (if length (Dup_outs (heap_dup h)) = 1 then
        if \<not> Dup_done (heap_dup h) then src_Process (set_done h) p
        else (h, p)
      else
        let h =
          (if \<not> Dup_done (heap_dup h) then
             let (h, b) = src_Process (set_done h) (slice (Dup_buf (heap_dup h))) in
             h\<lparr>heap_dup := (heap_dup h)\<lparr>Dup_buf := map_option (\<lambda>_. b) (Dup_buf (heap_dup h))\<rparr>\<rparr>
           else h)
        in (h, copy p (slice (Dup_buf (heap_dup h)))))"

text \<open>
  \<^verbatim>\<open>Output.Close\<close>: the loop looks for the first index that holds the receiver; there
  the tail is moved down by one and the slice is cut by one.
\<close>

primrec Close_index :: "Output \<Rightarrow> Output list \<Rightarrow> nat \<Rightarrow> nat option" where
  "Close_index out [] i = None"
| "Close_index out (o2 # rest) i = (if out = o2 then Some i else Close_index out rest (Suc i))"

definition Output_Close :: "Output \<Rightarrow> 'w Dup \<Rightarrow> 'w Dup" where
  "Output_Close out d =
     (let outs = Dup_outs d in
      case Close_index out outs 0 of
        None \<Rightarrow> d
      | Some i \<Rightarrow>
          let outs = take i outs @ copy (drop i outs) (drop (Suc i) outs) in
          d\<lparr>Dup_outs := take (length outs - 1) outs\<rparr>)"

text \<open>
  One processing cycle: \<^verbatim>\<open>Tick\<close>, then any number of \<^verbatim>\<open>Output.Process\<close> calls, each with
  the \<^verbatim>\<open>Output\<close> it is made on and the caller's buffer. The result lists the callers'
  buffers after their calls.
\<close>

primrec Process_calls ::
  "'w heap \<Rightarrow> (Output \<times> Sample list) list \<Rightarrow> 'w heap \<times> Sample list list" where
  "Process_calls h [] = (h, [])"
| "Process_calls h (c # cs) =
     (let (h, p) = Output_Process (fst c) h (snd c);
          (h, ps) = Process_calls h cs
      in (h, p # ps))"

definition cycle ::
  "'w heap \<Rightarrow> (Output \<times> Sample list) list \<Rightarrow> 'w heap \<times> Sample list list" where
  "cycle h calls = Process_calls (h\<lparr>heap_dup := Dup_Tick (heap_dup h)\<rparr>) calls"

primrec cycles :: "'w heap \<Rightarrow> (Output \<times> Sample list) list list \<Rightarrow> 'w heap" where
  "cycles h [] = h"
| "cycles h (calls # rest) = cycles (fst (cycle h calls)) rest"

text \<open>Elementwise loops: the buffer after the loop, index by index.\<close>

definition done_upto :: "(nat \<Rightarrow> Sample) \<Rightarrow> Sample list \<Rightarrow> nat \<Rightarrow> Sample list \<Rightarrow> bool" where
  "done_upto g s i s' \<longleftrightarrow>
     length s' = length s \<and> (\<forall>j<length s. s' ! j = (if j < i then g j else s ! j))"

text \<open>
  The phase of the square oscillator after one more sample without a trigger (lines 56 to
  59), and the sample put out at a phase (lines 60 to 64).
\<close>

definition phase_step :: "real \<Rightarrow> real \<Rightarrow> real \<Rightarrow> real" where
  "phase_step waveHz hz p = (if p + hz > waveHz then p + hz - waveHz else p + hz)"

definition square_wave :: "real \<Rightarrow> real \<Rightarrow> Sample" where
  "square_wave waveHz p = (if p > waveHz / 2 then - 1 else 1)"

text \<open>
  A \<^verbatim>\<open>Processor\<close> writes into the slice it is given: it cannot change the length of
  the caller's slice.
\<close>

definition in_place :: "'w Processor \<Rightarrow> bool" where
  "in_place src \<longleftrightarrow> (\<forall>w x. length (snd (src w x)) = length x)"

text \<open>
  An upstream node with state, for running the fan-out on examples: it fills the buffer
  with the number of its earlier calls. Two stores around it, one with three \<^verbatim>\<open>Output\<close>s
  and one with two.
\<close>

definition counter_src :: "nat Processor" where
  "counter_src w b = (Suc w, map (\<lambda>_. real w) b)"

definition three_outputs :: "nat heap" where
  "three_outputs =
     \<lparr>heap_dup = \<lparr>Dup_src = counter_src, Dup_outs = [0, 1, 2], Dup_buf = Some [0, 0],
                  Dup_done = True\<rparr>,
      heap_up = 5, heap_next = 3, heap_evals = 0\<rparr>"

definition two_outputs :: "nat heap" where
  "two_outputs =
     \<lparr>heap_dup = \<lparr>Dup_src = counter_src, Dup_outs = [0, 1], Dup_buf = Some [0, 0],
                  Dup_done = True\<rparr>,
      heap_up = 5, heap_next = 2, heap_evals = 0\<rparr>"

text \<open>
  The operations on a \<^verbatim>\<open>Dup\<close> and its \<^verbatim>\<open>Output\<close>s, as the host may call them in any order,
  and what holds of every store they lead to from \<^verbatim>\<open>NewDup\<close>: the registered \<^verbatim>\<open>Output\<close>s
  are distinct allocated addresses, the scratch buffer has \<open>nSamples\<close> elements once it
  is allocated, and it is allocated when more than one \<^verbatim>\<open>Output\<close> is registered.
\<close>

datatype 'w op =
  OpTick
  | OpSetSource "'w Processor"
  | OpOutput
  | OpProcess Output "Sample list"
  | OpClose Output

fun apply_op :: "nat \<Rightarrow> 'w heap \<Rightarrow> 'w op \<Rightarrow> 'w heap" where
  "apply_op nSamples h OpTick = h\<lparr>heap_dup := Dup_Tick (heap_dup h)\<rparr>"
| "apply_op nSamples h (OpSetSource p) = h\<lparr>heap_dup := Dup_SetSource p (heap_dup h)\<rparr>"
| "apply_op nSamples h OpOutput = snd (new_Output nSamples h)"
| "apply_op nSamples h (OpProcess out p) = fst (Output_Process out h p)"
| "apply_op nSamples h (OpClose out) = h\<lparr>heap_dup := Output_Close out (heap_dup h)\<rparr>"

definition Dup_inv :: "nat \<Rightarrow> 'w heap \<Rightarrow> bool" where
  "Dup_inv nSamples h \<longleftrightarrow>
     distinct (Dup_outs (heap_dup h))
     \<and> (\<forall>out\<in>set (Dup_outs (heap_dup h)). out < heap_next h)
     \<and> in_place (Dup_src (heap_dup h))
     \<and> (\<forall>b. Dup_buf (heap_dup h) = Some b \<longrightarrow> length b = nSamples)
     \<and> (1 < length (Dup_outs (heap_dup h)) \<longrightarrow> Dup_buf (heap_dup h) \<noteq> None)"

section \<open>Properties\<close>

subsection \<open>Buffers and loops\<close>

lemma lookup_Some_iff: "lookup xs i = Some x \<longleftrightarrow> i < length xs \<and> xs ! i = x"
  by (auto simp: lookup_def)

lemma lookup_None_iff: "lookup xs i = None \<longleftrightarrow> length xs \<le> i"
  by (auto simp: lookup_def)

lemma lookup_in_range: "i < length xs \<Longrightarrow> lookup xs i = Some (xs ! i)"
  by (simp add: lookup_def)

lemma store_Some_iff: "store xs i x = Some ys \<longleftrightarrow> i < length xs \<and> ys = xs[i := x]"
  by (auto simp: store_def)

lemma store_in_range: "i < length xs \<Longrightarrow> store xs i x = Some (xs[i := x])"
  by (simp add: store_def)

lemma range_loop_append:
  "range_loop body (is @ js) x =
     (case range_loop body is x of None \<Rightarrow> None | Some y \<Rightarrow> range_loop body js y)"
  by (induction "is" arbitrary: x) (auto split: option.splits)

lemma range_loop_invariant:
  assumes "range_loop body [0..<n] x = Some y"
    and "P 0 x"
    and "\<And>i a b. i < n \<Longrightarrow> P i a \<Longrightarrow> body i a = Some b \<Longrightarrow> P (Suc i) b"
  shows "P n y"
  using assms
proof (induction n arbitrary: y)
  case 0
  then show ?case by simp
next
  case (Suc n)
  from Suc.prems(1) obtain z where z: "range_loop body [0..<n] x = Some z" and y: "body n z = Some y"
    by (auto simp: range_loop_append split: option.splits)
  have "P n z"
    using z Suc.prems(2) Suc.prems(3) by (intro Suc.IH) auto
  then show ?case using y Suc.prems(3) by blast
qed

lemma range_loop_total:
  assumes "P 0 x"
    and "\<And>i a. i < n \<Longrightarrow> P i a \<Longrightarrow> \<exists>b. body i a = Some b \<and> P (Suc i) b"
  shows "\<exists>y. range_loop body [0..<n] x = Some y \<and> P n y"
  using assms
proof (induction n)
  case 0
  then show ?case by simp
next
  case (Suc n)
  have "\<exists>z. range_loop body [0..<n] x = Some z \<and> P n z"
    using Suc.prems by (intro Suc.IH) auto
  then obtain z where z: "range_loop body [0..<n] x = Some z" "P n z" by blast
  with Suc.prems(2)[of n z] show ?case
    by (auto simp: range_loop_append)
qed

lemma fold_invariant:
  assumes "P 0 x"
    and "\<And>i a. i < n \<Longrightarrow> P i a \<Longrightarrow> P (Suc i) (f i a)"
  shows "P n (fold f [0..<n] x)"
  using assms by (induction n) auto

lemma done_upto_0: "done_upto g s 0 s"
  by (simp add: done_upto_def)

lemma done_upto_step:
  "done_upto g s i a \<Longrightarrow> i < length s \<Longrightarrow> done_upto g s (Suc i) (a[i := g i])"
  by (auto simp: done_upto_def nth_list_update less_Suc_eq)

lemma done_upto_nth: "done_upto g s i a \<Longrightarrow> i < length s \<Longrightarrow> a ! i = s ! i"
  by (simp add: done_upto_def)

lemma done_upto_all: "done_upto g s (length s) a \<Longrightarrow> a = map g [0..<length s]"
  by (auto simp: done_upto_def intro!: nth_equalityI)

lemma Mul_Process_eq:
  assumes "length a \<le> length b"
  shows "Mul_Process a b = Some (map (\<lambda>i. a ! i * b ! i) [0..<length a])"
proof -
  have "\<exists>y. range_loop (Mul_sample b) [0..<length a] a = Some y
          \<and> done_upto (\<lambda>i. a ! i * b ! i) a (length a) y"
  proof (rule range_loop_total)
    show "done_upto (\<lambda>i. a ! i * b ! i) a 0 a" by (rule done_upto_0)
  next
    fix i x
    assume i: "i < length a" and x: "done_upto (\<lambda>i. a ! i * b ! i) a i x"
    have "Mul_sample b i x = Some (x[i := a ! i * b ! i])"
      using i x assms by (simp add: Mul_sample_def lookup_def store_def done_upto_def)
    then show "\<exists>y. Mul_sample b i x = Some y \<and> done_upto (\<lambda>i. a ! i * b ! i) a (Suc i) y"
      using done_upto_step[OF x i] by simp
  qed
  then show ?thesis
    by (auto simp: Mul_Process_def dest: done_upto_all)
qed

lemma Sum_Process_eq:
  assumes "length a \<le> length b"
  shows "Sum_Process a b = Some (map (\<lambda>i. a ! i + b ! i) [0..<length a])"
proof -
  have "\<exists>y. range_loop (Sum_sample b) [0..<length a] a = Some y
          \<and> done_upto (\<lambda>i. a ! i + b ! i) a (length a) y"
  proof (rule range_loop_total)
    show "done_upto (\<lambda>i. a ! i + b ! i) a 0 a" by (rule done_upto_0)
  next
    fix i x
    assume i: "i < length a" and x: "done_upto (\<lambda>i. a ! i + b ! i) a i x"
    have "Sum_sample b i x = Some (x[i := a ! i + b ! i])"
      using i x assms by (simp add: Sum_sample_def lookup_def store_def done_upto_def)
    then show "\<exists>y. Sum_sample b i x = Some y \<and> done_upto (\<lambda>i. a ! i + b ! i) a (Suc i) y"
      using done_upto_step[OF x i] by simp
  qed
  then show ?thesis
    by (auto simp: Sum_Process_def dest: done_upto_all)
qed

subsection \<open>Mul and Sum are elementwise\<close>

text \<open>
  Claim C9. For buffers \<open>a\<close> and \<open>b\<close> of the same length, \<^verbatim>\<open>Mul.Process\<close> returns and leaves
  \<open>a ! i * b ! i\<close> at every index, \<^verbatim>\<open>Sum.Process\<close> returns and leaves \<open>a ! i + b ! i\<close>;
  nothing is clamped, and the result is a function of the two buffers alone. The sum of a
  buffer and its negation is the buffer of zeros, the product with the buffer of ones is
  the buffer itself.
\<close>

theorem Mul_Sum_elementwise:
  assumes "length a = length b"
  shows "(\<exists>m. Mul_Process a b = Some m \<and> length m = length a \<and> (\<forall>i<length a. m ! i = a ! i * b ! i))
       \<and> (\<exists>s. Sum_Process a b = Some s \<and> length s = length a \<and> (\<forall>i<length a. s ! i = a ! i + b ! i))
       \<and> Sum_Process a (map uminus a) = Some (replicate (length a) 0)
       \<and> Mul_Process a (replicate (length a) 1) = Some a"
proof -
  have 1: "\<exists>m. Mul_Process a b = Some m \<and> length m = length a \<and> (\<forall>i<length a. m ! i = a ! i * b ! i)"
    using assms by (simp add: Mul_Process_eq)
  have 2: "\<exists>s. Sum_Process a b = Some s \<and> length s = length a \<and> (\<forall>i<length a. s ! i = a ! i + b ! i)"
    using assms by (simp add: Sum_Process_eq)
  have 3: "Sum_Process a (map uminus a) = Some (replicate (length a) 0)"
    by (simp add: Sum_Process_eq) (rule nth_equalityI, simp_all)
  have 4: "Mul_Process a (replicate (length a) 1) = Some a"
    by (simp add: Mul_Process_eq) (rule nth_equalityI, simp_all)
  from 1 2 3 4 show ?thesis by blast
qed

theorem Mul_Sum_elementwise_witness:
  "length [2, 3 :: Sample] = length [5, - 7 :: Sample]
   \<and> Mul_Process [2, 3] [5, - 7] = Some [10, - 21]
   \<and> Sum_Process [2, 3] [5, - 7] = Some [7, - 4]
   \<and> Sum_Process [2, 3] (map uminus [2, 3]) = Some (replicate (length [2, 3 :: Sample]) 0)
   \<and> Mul_Process [2, 3] (replicate (length [2, 3 :: Sample]) 1) = Some [2, 3]"
proof -
  have len: "length [2, 3 :: Sample] = length [5, - 7 :: Sample]" by simp
  note inst = Mul_Sum_elementwise[OF len]
  from inst obtain m where m: "Mul_Process [2, 3] [5, - 7] = Some m" "length m = 2"
    "\<forall>i<2. m ! i = [2, 3] ! i * [5, - 7] ! i" by auto
  from inst obtain s where s: "Sum_Process [2, 3] [5, - 7] = Some s" "length s = 2"
    "\<forall>i<2. s ! i = [2, 3] ! i + [5, - 7] ! i" by auto
  have "m = [10, - 21]"
    using m(2,3) by (intro nth_equalityI) (auto simp: less_Suc_eq numeral_2_eq_2)
  moreover have "s = [7, - 4]"
    using s(2,3) by (intro nth_equalityI) (auto simp: less_Suc_eq numeral_2_eq_2)
  ultimately show ?thesis using inst m(1) s(1) by simp
qed

subsection \<open>Clip\<close>

lemma Clip_Process_nth:
  "done_upto (\<lambda>j. if s ! j > 1 then 1 else if s ! j < - 1 then - 1 else s ! j) s (length s)
     (Clip_Process s)"
  unfolding Clip_Process_def
proof (rule fold_invariant)
  show "done_upto (\<lambda>j. if s ! j > 1 then 1 else if s ! j < - 1 then - 1 else s ! j) s 0 s"
    by (rule done_upto_0)
next
  fix i a
  assume i: "i < length s"
    and a: "done_upto (\<lambda>j. if s ! j > 1 then 1 else if s ! j < - 1 then - 1 else s ! j) s i a"
  have ai: "a ! i = s ! i" using a i by (rule done_upto_nth)
  have "Clip_sample i a = a[i := (if s ! i > 1 then 1 else if s ! i < - 1 then - 1 else s ! i)]"
    using ai list_update_id[of a i] by (auto simp: Clip_sample_def Let_def)
  then show "done_upto (\<lambda>j. if s ! j > 1 then 1 else if s ! j < - 1 then - 1 else s ! j) s (Suc i)
      (Clip_sample i a)"
    using done_upto_step[OF a i] by simp
qed

lemma Clip_Process_length: "length (Clip_Process s) = length s"
  using Clip_Process_nth[of s] by (simp add: done_upto_def)

lemma Clip_Process_at:
  "i < length s \<Longrightarrow>
     Clip_Process s ! i = (if s ! i > 1 then 1 else if s ! i < - 1 then - 1 else s ! i)"
  using Clip_Process_nth[of s] by (simp add: done_upto_def)

text \<open>
  Claim C8. After \<^verbatim>\<open>Clip.Process\<close> every sample of the buffer is in \<open>[-1, 1]\<close>, a sample that
  was in \<open>[-1, 1]\<close> already is unchanged, and clipping a clipped buffer changes nothing.
\<close>

theorem Clip_range_idempotent:
  "length (Clip_Process s) = length s
   \<and> (\<forall>i<length s. - 1 \<le> Clip_Process s ! i \<and> Clip_Process s ! i \<le> 1)
   \<and> (\<forall>i<length s. - 1 \<le> s ! i \<and> s ! i \<le> 1 \<longrightarrow> Clip_Process s ! i = s ! i)
   \<and> Clip_Process (Clip_Process s) = Clip_Process s"
proof -
  have "Clip_Process (Clip_Process s) = Clip_Process s"
    by (rule nth_equalityI) (simp_all add: Clip_Process_length Clip_Process_at)
  then show ?thesis
    by (simp add: Clip_Process_length Clip_Process_at)
qed

theorem Clip_range_idempotent_witness:
  "Clip_Process [2, 1 / 2, - 3] = [1, 1 / 2, - 1]
   \<and> (1 :: nat) < length [2, 1 / 2, - 3 :: Sample]
   \<and> - 1 \<le> [2, 1 / 2, - 3 :: Sample] ! 1 \<and> [2, 1 / 2, - 3 :: Sample] ! 1 \<le> 1
   \<and> - 1 \<le> Clip_Process [2, 1 / 2, - 3] ! 1 \<and> Clip_Process [2, 1 / 2, - 3] ! 1 \<le> 1
   \<and> Clip_Process [2, 1 / 2, - 3] ! 1 = [2, 1 / 2, - 3] ! 1
   \<and> Clip_Process (Clip_Process [2, 1 / 2, - 3]) = Clip_Process [2, 1 / 2, - 3]"
proof -
  have val: "Clip_Process [2, 1 / 2, - 3] = [1, 1 / 2, - 1]"
    by (simp add: Clip_Process_def Clip_sample_def)
  have i: "(1 :: nat) < length [2, 1 / 2, - 3 :: Sample]" by simp
  have r: "- 1 \<le> [2, 1 / 2, - 3 :: Sample] ! 1 \<and> [2, 1 / 2, - 3 :: Sample] ! 1 \<le> 1" by simp
  from Clip_range_idempotent[of "[2, 1 / 2, - 3]"] i r val show ?thesis
    by blast
qed

subsection \<open>The square oscillator puts out 1 and -1 only\<close>

lemma Square_sample_Some:
  assumes "Square_sample exp2 waveHz t lastS i (p, hz, a) = Some (p', hz', a')"
  shows "i < length a \<and> i < length t \<and> (\<exists>x. (x = 1 \<or> x = - 1) \<and> a' = a[i := x])"
  using assms
  by (auto simp: Square_sample_def Let_def lookup_def store_def split: if_splits Option.bind_splits)

lemma Square_sample_total:
  assumes "i < length a" "i < length t"
  shows "\<exists>p' hz' x. Square_sample exp2 waveHz t lastS i (p, hz, a) = Some (p', hz', a[i := x])"
  using assms
  by (auto simp: Square_sample_def Let_def lookup_def store_def)

lemma Square_Process_total:
  assumes ne: "s \<noteq> []" and le: "length s \<le> length t"
  shows "\<exists>osc' s'. Square_Process exp2 waveHz osc s t = Some (osc', s')"
proof -
  let ?P = "\<lambda>(i :: nat) (x :: real \<times> real \<times> Sample list). length (snd (snd x)) = length s"
  have "\<exists>y. range_loop (Square_sample exp2 waveHz t (s ! 0)) [0..<length s]
               (Square_pos osc, sampleToHz exp2 (s ! 0), s) = Some y
             \<and> ?P (length s) y"
  proof (rule range_loop_total[where P = ?P])
    show "?P 0 (Square_pos osc, sampleToHz exp2 (s ! 0), s)"
      by simp
  next
    fix i x
    assume i: "i < length s" and x: "?P i x"
    obtain p hz a where [simp]: "x = (p, hz, a)" by (cases x)
    from x have len: "length a = length s" by simp
    from Square_sample_total[of i a t exp2 waveHz "s ! 0" p hz] i le len
    show "\<exists>b. Square_sample exp2 waveHz t (s ! 0) i x = Some b \<and> ?P (Suc i) b"
      by auto
  qed
  then show ?thesis
    using ne by (auto simp: Square_Process_def Square_loop_def lookup_def)
qed

lemma Square_Process_unit:
  assumes run: "Square_Process exp2 waveHz osc s t = Some (osc', s')"
  shows "length s' = length s \<and> (\<forall>j<length s. s' ! j = 1 \<or> s' ! j = - 1)"
proof -
  from run obtain s0 p hz where s0: "lookup s 0 = Some s0"
    and loop: "range_loop (Square_sample exp2 waveHz t s0) [0..<length s]
                 (Square_pos osc, sampleToHz exp2 s0, s) = Some (p, hz, s')"
    by (auto simp: Square_Process_def Square_loop_def split: Option.bind_splits)
  let ?P = "\<lambda>(i :: nat) (x :: real \<times> real \<times> Sample list).
      length (snd (snd x)) = length s \<and> (\<forall>j<i. snd (snd x) ! j = 1 \<or> snd (snd x) ! j = - 1)"
  have "?P (length s) (p, hz, s')"
  proof (rule range_loop_invariant[OF loop, where P = ?P])
    show "?P 0 (Square_pos osc, sampleToHz exp2 s0, s)"
      by simp
  next
    fix i x y
    assume i: "i < length s"
      and x: "?P i x"
      and y: "Square_sample exp2 waveHz t s0 i x = Some y"
    obtain p hz a where [simp]: "x = (p, hz, a)" by (cases x)
    obtain p' hz' a' where [simp]: "y = (p', hz', a')" by (cases y)
    from Square_sample_Some[of exp2 waveHz t s0 i p hz a p' hz' a'] y
    obtain v where v: "v = 1 \<or> v = - 1" "a' = a[i := v]" "i < length a" by auto
    with x show "?P (Suc i) y"
      by (auto simp: nth_list_update less_Suc_eq)
  qed
  then show ?thesis by simp
qed

text \<open>
  Claim C10. Whatever the pitch buffer, the trigger answers, the phase left by the last
  call, the sample rate and the exponential: \<^verbatim>\<open>Square.Process\<close> returns when the pitch
  buffer is not empty and the trigger buffer is not shorter, and then every sample of the
  buffer is 1 or -1, also when the frequency is above \<open>waveHz\<close> and the single subtraction
  leaves the phase above \<open>waveHz\<close>.
\<close>

theorem Square_output_unit:
  "(s \<noteq> [] \<and> length s \<le> length t \<longrightarrow>
      (\<exists>osc' s'. Square_Process exp2 waveHz osc s t = Some (osc', s')))
   \<and> (\<forall>osc' s'. Square_Process exp2 waveHz osc s t = Some (osc', s') \<longrightarrow>
        length s' = length s \<and> (\<forall>x\<in>set s'. x = 1 \<or> x = - 1))"
proof -
  have "length s' = length s \<and> (\<forall>x\<in>set s'. x = 1 \<or> x = - 1)"
    if "Square_Process exp2 waveHz osc s t = Some (osc', s')" for osc' s'
    using Square_Process_unit[OF that] by (auto simp: in_set_conv_nth)
  then show ?thesis
    using Square_Process_total[of s t exp2 waveHz osc] by blast
qed

theorem Square_output_unit_witness:
  "[7 / 10, 7 / 10, 7 / 10 :: Sample] \<noteq> []
   \<and> length [7 / 10, 7 / 10, 7 / 10 :: Sample] \<le> length [False, False, False]
   \<and> Square_Process (\<lambda>x. 2 powr x) 44100 \<lparr>Square_pos = 0\<rparr> [7 / 10, 7 / 10, 7 / 10]
         [False, False, False] = Some (\<lparr>Square_pos = 36660\<rparr>, [1, - 1, - 1])
   \<and> length [1, - 1, - 1 :: Sample] = length [7 / 10, 7 / 10, 7 / 10 :: Sample]
   \<and> (- 1 :: Sample) \<in> {1, - 1}"
proof -
  have hz: "sampleToHz (\<lambda>x. 2 powr x) (7 / 10) = 56320"
    by (simp add: sampleToHz_def)
  have run: "Square_Process (\<lambda>x. 2 powr x) 44100 \<lparr>Square_pos = 0\<rparr> [7 / 10, 7 / 10, 7 / 10]
      [False, False, False] = Some (\<lparr>Square_pos = 36660\<rparr>, [1, - 1, - 1])"
    by (simp add: Square_Process_def Square_loop_def Square_sample_def lookup_def store_def hz)
  have "length [1, - 1, - 1 :: Sample] = length [7 / 10, 7 / 10, 7 / 10 :: Sample]
      \<and> (\<forall>x\<in>set [1, - 1, - 1 :: Sample]. x = 1 \<or> x = - 1)"
    using Square_output_unit[of "[7 / 10, 7 / 10, 7 / 10]" "[False, False, False]"
        "\<lambda>x. 2 powr x" 44100 "\<lparr>Square_pos = 0\<rparr>"] run
    by blast
  then show ?thesis using run by simp
qed

subsection \<open>The envelope generator\<close>

lemma Env_clamp_range: "Env_clamp (up, v) = (up', v') \<Longrightarrow> 0 \<le> v' \<and> v' \<le> 1"
  by (auto simp: Env_clamp_def split: if_splits)

lemma Env_clamp_peak: "1 < v \<Longrightarrow> Env_clamp (up, v) = (False, 1)"
  by (simp add: Env_clamp_def)

lemma Env_sample_Some:
  assumes "Env_sample waveHz att dec t i (up, v, s) = Some (up', v', s')"
  shows "\<exists>trigger upm vm. i < length s \<and> lookup t i = Some trigger
           \<and> Env_advance waveHz att dec trigger (s ! i) i (up, v) = Some (upm, vm)
           \<and> Env_clamp (upm, vm) = (up', v') \<and> s' = s[i := v']"
  using assms
  by (auto simp: Env_sample_def lookup_Some_iff store_Some_iff
           split: Option.bind_splits prod.splits)

lemma Env_advance_total:
  assumes "i < length att" "i < length dec"
  shows "\<exists>uv. Env_advance waveHz att dec trigger si i (up, v) = Some uv"
  using assms by (auto simp: Env_advance_def lookup_def)

lemma Env_sample_total:
  assumes "i < length s" "i < length t" "i < length att" "i < length dec"
  shows "\<exists>up' v'. Env_sample waveHz att dec t i (up, v, s) = Some (up', v', s[i := v'])"
proof -
  obtain uv where uv: "Env_advance waveHz att dec (t ! i) (s ! i) i (up, v) = Some uv"
    using Env_advance_total[OF assms(3,4)] by blast
  obtain up' v' where c: "Env_clamp uv = (up', v')" by (cases "Env_clamp uv")
  have "Env_sample waveHz att dec t i (up, v, s) = Some (up', v', s[i := v'])"
    using assms(1,2) uv c by (simp add: Env_sample_def lookup_def store_def)
  then show ?thesis by blast
qed

lemma Env_Process_total:
  assumes "length s \<le> length t" "length s \<le> length att" "length s \<le> length dec"
  shows "\<exists>e' s'. Env_Process waveHz e s att dec t = Some (e', s')"
proof -
  let ?P = "\<lambda>(i :: nat) (x :: bool \<times> Sample \<times> Sample list). length (snd (snd x)) = length s"
  have "\<exists>y. range_loop (Env_sample waveHz att dec t) [0..<length s] (Env_up e, Env_v e, s) = Some y
          \<and> ?P (length s) y"
  proof (rule range_loop_total[where P = ?P])
    show "?P 0 (Env_up e, Env_v e, s)" by simp
  next
    fix i x
    assume i: "i < length s" and x: "?P i x"
    obtain up v a where [simp]: "x = (up, v, a)" by (cases x)
    from x have len: "length a = length s" by simp
    from Env_sample_total[of i a t att dec waveHz up v] i len assms
    show "\<exists>b. Env_sample waveHz att dec t i x = Some b \<and> ?P (Suc i) b"
      by auto
  qed
  then show ?thesis
    by (auto simp: Env_Process_def)
qed

lemma Env_Process_range:
  assumes v: "0 \<le> Env_v e" "Env_v e \<le> 1"
    and run: "Env_Process waveHz e s att dec t = Some (e', s')"
  shows "0 \<le> Env_v e' \<and> Env_v e' \<le> 1 \<and> length s' = length s
         \<and> (\<forall>j<length s. 0 \<le> s' ! j \<and> s' ! j \<le> 1)"
proof -
  from run obtain up' v' where
    loop: "range_loop (Env_sample waveHz att dec t) [0..<length s] (Env_up e, Env_v e, s)
             = Some (up', v', s')"
    and e': "e' = e\<lparr>Env_v := v', Env_up := up'\<rparr>"
    by (auto simp: Env_Process_def split: Option.bind_splits)
  let ?P = "\<lambda>(i :: nat) (x :: bool \<times> Sample \<times> Sample list).
      0 \<le> fst (snd x) \<and> fst (snd x) \<le> 1 \<and> length (snd (snd x)) = length s
      \<and> (\<forall>j<i. 0 \<le> snd (snd x) ! j \<and> snd (snd x) ! j \<le> 1)"
  have "?P (length s) (up', v', s')"
  proof (rule range_loop_invariant[OF loop, where P = ?P])
    show "?P 0 (Env_up e, Env_v e, s)" using v by simp
  next
    fix i x y
    assume i: "i < length s" and x: "?P i x" and y: "Env_sample waveHz att dec t i x = Some y"
    obtain up v a where [simp]: "x = (up, v, a)" by (cases x)
    obtain up2 v2 a2 where [simp]: "y = (up2, v2, a2)" by (cases y)
    from Env_sample_Some[of waveHz att dec t i up v a up2 v2 a2] y
    obtain upm vm where c: "Env_clamp (upm, vm) = (up2, v2)" and a2: "a2 = a[i := v2]"
      and ia: "i < length a" by auto
    from Env_clamp_range[OF c] have "0 \<le> v2 \<and> v2 \<le> 1" .
    with x a2 ia show "?P (Suc i) y"
      by (auto simp: nth_list_update less_Suc_eq)
  qed
  then show ?thesis using e' by simp
qed

text \<open>
  Claim C4. In every step of the loop of \<^verbatim>\<open>Env.Process\<close>, from any level and any flag and
  for any gate, trigger, attack and decay input, the level after the step is in \<open>[0, 1]\<close>
  and is the sample written; when the level before the clamp is above 1, the level
  after the step is 1 and the attack flag is off. A call that starts with a level in
  \<open>[0, 1]\<close> ends with one and leaves every sample of the buffer in \<open>[0, 1]\<close>; the call
  returns when no input buffer is shorter than the gate buffer.
\<close>

theorem Env_level_bounded:
  "(\<forall>up v a up' v' a'. Env_sample waveHz att dec t i (up, v, a) = Some (up', v', a') \<longrightarrow>
      0 \<le> v' \<and> v' \<le> 1 \<and> i < length a \<and> a' = a[i := v']
      \<and> (\<exists>trigger upm vm. lookup t i = Some trigger
            \<and> Env_advance waveHz att dec trigger (a ! i) i (up, v) = Some (upm, vm)
            \<and> Env_clamp (upm, vm) = (up', v')
            \<and> (1 < vm \<longrightarrow> v' = 1 \<and> \<not> up')))
   \<and> (\<forall>e' s'. 0 \<le> Env_v e \<and> Env_v e \<le> 1
          \<and> Env_Process waveHz e s att dec t = Some (e', s') \<longrightarrow>
        0 \<le> Env_v e' \<and> Env_v e' \<le> 1 \<and> length s' = length s
        \<and> (\<forall>x\<in>set s'. 0 \<le> x \<and> x \<le> 1))
   \<and> (length s \<le> length t \<and> length s \<le> length att \<and> length s \<le> length dec \<longrightarrow>
        (\<exists>e' s'. Env_Process waveHz e s att dec t = Some (e', s')))"
proof (intro conjI)
  show "\<forall>up v a up' v' a'. Env_sample waveHz att dec t i (up, v, a) = Some (up', v', a') \<longrightarrow>
      0 \<le> v' \<and> v' \<le> 1 \<and> i < length a \<and> a' = a[i := v']
      \<and> (\<exists>trigger upm vm. lookup t i = Some trigger
            \<and> Env_advance waveHz att dec trigger (a ! i) i (up, v) = Some (upm, vm)
            \<and> Env_clamp (upm, vm) = (up', v')
            \<and> (1 < vm \<longrightarrow> v' = 1 \<and> \<not> up'))"
  proof (intro allI impI)
    fix up v a up' v' a'
    assume "Env_sample waveHz att dec t i (up, v, a) = Some (up', v', a')"
    from Env_sample_Some[OF this] obtain trigger upm vm where
      h: "i < length a" "lookup t i = Some trigger"
         "Env_advance waveHz att dec trigger (a ! i) i (up, v) = Some (upm, vm)"
         "Env_clamp (upm, vm) = (up', v')" "a' = a[i := v']"
      by blast
    have "1 < vm \<longrightarrow> v' = 1 \<and> \<not> up'"
      using h(4) Env_clamp_peak[of vm upm] by auto
    with h Env_clamp_range[OF h(4)]
    show "0 \<le> v' \<and> v' \<le> 1 \<and> i < length a \<and> a' = a[i := v']
      \<and> (\<exists>trigger upm vm. lookup t i = Some trigger
            \<and> Env_advance waveHz att dec trigger (a ! i) i (up, v) = Some (upm, vm)
            \<and> Env_clamp (upm, vm) = (up', v')
            \<and> (1 < vm \<longrightarrow> v' = 1 \<and> \<not> up'))"
      by blast
  qed
next
  show "\<forall>e' s'. 0 \<le> Env_v e \<and> Env_v e \<le> 1
          \<and> Env_Process waveHz e s att dec t = Some (e', s') \<longrightarrow>
        0 \<le> Env_v e' \<and> Env_v e' \<le> 1 \<and> length s' = length s
        \<and> (\<forall>x\<in>set s'. 0 \<le> x \<and> x \<le> 1)"
  proof (intro allI impI)
    fix e' s'
    assume h: "0 \<le> Env_v e \<and> Env_v e \<le> 1 \<and> Env_Process waveHz e s att dec t = Some (e', s')"
    then have "0 \<le> Env_v e' \<and> Env_v e' \<le> 1 \<and> length s' = length s
         \<and> (\<forall>j<length s. 0 \<le> s' ! j \<and> s' ! j \<le> 1)"
      by (intro Env_Process_range) auto
    then show "0 \<le> Env_v e' \<and> Env_v e' \<le> 1 \<and> length s' = length s
        \<and> (\<forall>x\<in>set s'. 0 \<le> x \<and> x \<le> 1)"
      by (auto simp: in_set_conv_nth)
  qed
next
  show "length s \<le> length t \<and> length s \<le> length att \<and> length s \<le> length dec \<longrightarrow>
        (\<exists>e' s'. Env_Process waveHz e s att dec t = Some (e', s'))"
    using Env_Process_total[of s t att dec waveHz e] by blast
qed

theorem Env_level_bounded_witness:
  "Env_sample 10 [1, 1, 1] [1, 1, 1] [False, False, False] 1 (True, 1, [1, 0, 0])
     = Some (False, 1, [1, 1, 0])
   \<and> Env_advance 10 [1, 1, 1] [1, 1, 1] False 0 1 (True, 1) = Some (True, 101 / 100)
   \<and> (1 :: Sample) < 101 / 100
   \<and> 0 \<le> Env_v \<lparr>Env_v = 99 / 100, Env_up = True, Env_wasLow = False\<rparr>
   \<and> Env_v \<lparr>Env_v = 99 / 100, Env_up = True, Env_wasLow = False\<rparr> \<le> 1
   \<and> length [1, 0, 0 :: Sample] \<le> length [False, False, False]
   \<and> length [1, 0, 0 :: Sample] \<le> length [1, 1, 1 :: Sample]
   \<and> Env_Process 10 \<lparr>Env_v = 99 / 100, Env_up = True, Env_wasLow = False\<rparr>
         [1, 0, 0] [1, 1, 1] [1, 1, 1] [False, False, False]
       = Some (\<lparr>Env_v = 99 / 100, Env_up = False, Env_wasLow = False\<rparr>, [1, 1, 99 / 100])
   \<and> 0 \<le> Env_v \<lparr>Env_v = 99 / 100, Env_up = False, Env_wasLow = False\<rparr>
   \<and> Env_v \<lparr>Env_v = 99 / 100, Env_up = False, Env_wasLow = False\<rparr> \<le> 1
   \<and> length [1, 1, 99 / 100 :: Sample] = length [1, 0, 0 :: Sample]"
proof -
  let ?e = "\<lparr>Env_v = 99 / 100, Env_up = True, Env_wasLow = False\<rparr>"
  let ?e' = "\<lparr>Env_v = 99 / 100, Env_up = False, Env_wasLow = False\<rparr>"
  have step: "Env_sample 10 [1, 1, 1] [1, 1, 1] [False, False, False] 1 (True, 1, [1, 0, 0])
      = Some (False, 1, [1, 1, 0])"
    by (simp add: Env_sample_def Env_advance_def Env_clamp_def lookup_def store_def)
  have adv: "Env_advance 10 [1, 1, 1] [1, 1, 1] False 0 1 (True, 1) = Some (True, 101 / 100)"
    by (simp add: Env_advance_def lookup_def)
  have run: "Env_Process 10 ?e [1, 0, 0] [1, 1, 1] [1, 1, 1] [False, False, False]
      = Some (?e', [1, 1, 99 / 100])"
    by (simp add: Env_Process_def Env_sample_def Env_advance_def Env_clamp_def lookup_def
        store_def)
  have start: "0 \<le> Env_v ?e \<and> Env_v ?e \<le> 1" by simp
  note inst = Env_level_bounded[of 10 "[1, 1, 1]" "[1, 1, 1]" "[False, False, False]" 1 ?e
      "[1, 0, 0]"]
  from inst start run
  have "0 \<le> Env_v ?e' \<and> Env_v ?e' \<le> 1 \<and> length [1, 1, 99 / 100 :: Sample] = length [1, 0, 0 :: Sample]"
    by blast
  then show ?thesis using step adv run by simp
qed





subsection \<open>The sample-and-hold randomizer\<close>












subsection \<open>The oscillators keep a stale frequency\<close>

text \<open>
  Claim C3 says that the frequency is recomputed whenever the pitch differs from the pitch
  of the sample before. The loops of \<^verbatim>\<open>Square.Process\<close> and \<^verbatim>\<open>Sin.Process\<close> compare with
  \<^verbatim>\<open>lastS\<close>, which is assigned before the loop and never again: a pitch that returns to
  the value of the first sample is not converted. With the pitch buffer \<open>[0, 1/2, 0]\<close> the
  frequency at the last sample is still that of the pitch \<open>1/2\<close>, 14080, where the pitch 0
  is 440; the square oscillator puts out \<open>-1\<close> at the last sample, where the phase
  \<open>14520 + 440\<close> would give \<open>1\<close>.
\<close>

theorem oscillator_hz_stale:
  "Square_loop (\<lambda>x. 2 powr x) 44100 \<lparr>Square_pos = 0\<rparr> [0, 1 / 2, 0] [False, False, False]
     = Some (28600, 14080, [1, 1, - 1])
   \<and> map_option (\<lambda>(p, hz, s). hz)
        (Sin_loop (\<lambda>x. 2 powr x) sin 44100 \<lparr>Sin_pos = 0\<rparr> [0, 1 / 2, 0] [False, False, False])
     = Some 14080
   \<and> sampleToHz (\<lambda>x. 2 powr x) 0 = 440
   \<and> sampleToHz (\<lambda>x. 2 powr x) (1 / 2) = 14080
   \<and> square_wave 44100 (phase_step 44100 440 14520) = 1"
proof -
  have hz0: "sampleToHz (\<lambda>x. 2 powr x) 0 = 440"
    by (simp add: sampleToHz_def)
  have hz1: "sampleToHz (\<lambda>x. 2 powr x) (1 / 2) = 14080"
    by (simp add: sampleToHz_def)
  have sq: "Square_loop (\<lambda>x. 2 powr x) 44100 \<lparr>Square_pos = 0\<rparr> [0, 1 / 2, 0] [False, False, False]
     = Some (28600, 14080, [1, 1, - 1])"
    by (simp add: Square_loop_def Square_sample_def lookup_def store_def hz0 hz1)
  have sn: "map_option (\<lambda>(p, hz, s). hz)
        (Sin_loop (\<lambda>x. 2 powr x) sin 44100 \<lparr>Sin_pos = 0\<rparr> [0, 1 / 2, 0] [False, False, False])
     = Some 14080"
    by (simp add: Sin_loop_def Sin_sample_def lookup_def store_def hz0 hz1)
  have w: "square_wave 44100 (phase_step 44100 440 14520) = 1"
    by (simp add: square_wave_def phase_step_def)
  from hz0 hz1 sq sn w show ?thesis by blast
qed

subsection \<open>The phase of the square oscillator\<close>
















subsection \<open>Fan-out\<close>

lemma removeAll_filter: "removeAll a xs = filter (\<lambda>x. x \<noteq> a) xs"
  by (induction xs) auto


lemma copy_same_length: "length src = length dst \<Longrightarrow> copy dst src = src"
  by (simp add: copy_def)

lemma length_copy: "length (copy dst src) = length dst"
  by (simp add: copy_def)

lemma src_Process_fields:
  "heap_dup (fst (src_Process h b)) = heap_dup h"
  "heap_next (fst (src_Process h b)) = heap_next h"
  "heap_evals (fst (src_Process h b)) = Suc (heap_evals h)"
  "heap_up (fst (src_Process h b)) = fst (Dup_src (heap_dup h) (heap_up h) b)"
  "snd (src_Process h b) = snd (Dup_src (heap_dup h) (heap_up h) b)"
  by (simp_all add: src_Process_def split: prod.splits)

lemma Output_Process_done:
  assumes "Dup_done (heap_dup h)"
  shows "Output_Process out h p
           = (h, if length (Dup_outs (heap_dup h)) = 1 then p
                 else copy p (slice (Dup_buf (heap_dup h))))"
  using assms by (simp add: Output_Process_def)

lemma Output_Process_single:
  assumes "\<not> Dup_done (heap_dup h)" "length (Dup_outs (heap_dup h)) = 1"
  shows "Output_Process out h p = src_Process (set_done h) p"
  using assms by (simp add: Output_Process_def)

lemma Output_Process_shared:
  assumes "\<not> Dup_done (heap_dup h)" "length (Dup_outs (heap_dup h)) \<noteq> 1"
    and "Dup_buf (heap_dup h) = Some b"
  shows "Output_Process out h p
           = (let h1 = fst (src_Process (set_done h) b);
                  b' = snd (src_Process (set_done h) b)
              in (h1\<lparr>heap_dup := (heap_dup h1)\<lparr>Dup_buf := Some b'\<rparr>\<rparr>, copy p b'))"
  using assms
  by (simp add: Output_Process_def slice_def set_done_def src_Process_def Let_def
           split: prod.splits)

lemma Output_Process_evals:
  "heap_evals (fst (Output_Process out h p))
     = (if Dup_done (heap_dup h) then heap_evals h else Suc (heap_evals h))"
  by (simp add: Output_Process_def set_done_def src_Process_def Let_def split: prod.splits)

lemma Output_Process_sets_done: "Dup_done (heap_dup (fst (Output_Process out h p)))"
  by (simp add: Output_Process_def set_done_def src_Process_def Let_def split: prod.splits)

lemma Output_Process_keeps:
  "Dup_outs (heap_dup (fst (Output_Process out h p))) = Dup_outs (heap_dup h)"
  "Dup_src (heap_dup (fst (Output_Process out h p))) = Dup_src (heap_dup h)"
  "heap_next (fst (Output_Process out h p)) = heap_next h"
  by (simp_all add: Output_Process_def set_done_def src_Process_def Let_def split: prod.splits)

lemma Process_calls_done:
  assumes "Dup_done (heap_dup h)"
  shows "Process_calls h cs
           = (h, map (\<lambda>c. if length (Dup_outs (heap_dup h)) = 1 then snd c
                           else copy (snd c) (slice (Dup_buf (heap_dup h)))) cs)"
  using assms by (induction cs) (simp_all add: Output_Process_done)

lemma Process_calls_Cons:
  "Process_calls h (c # cs)
     = (fst (Process_calls (fst (Output_Process (fst c) h (snd c))) cs),
        snd (Output_Process (fst c) h (snd c))
          # snd (Process_calls (fst (Output_Process (fst c) h (snd c))) cs))"
  by (simp add: split: prod.splits)

lemma Process_calls_first:
  "Process_calls h (c # cs)
     = (let h1 = fst (Output_Process (fst c) h (snd c)) in
        (h1, snd (Output_Process (fst c) h (snd c))
             # map (\<lambda>c. if length (Dup_outs (heap_dup h1)) = 1 then snd c
                          else copy (snd c) (slice (Dup_buf (heap_dup h1)))) cs))"
  unfolding Process_calls_Cons Let_def
  by (simp add: Process_calls_done[OF Output_Process_sets_done])

lemma cycle_evals:
  "heap_evals (fst (cycle h calls)) = (if calls = [] then heap_evals h else Suc (heap_evals h))"
proof (cases calls)
  case Nil
  then show ?thesis by (simp add: cycle_def)
next
  case (Cons c cs)
  then show ?thesis
    by (simp add: cycle_def Process_calls_first Let_def Output_Process_evals Dup_Tick_def
             del: Process_calls.simps)
qed

lemma Output_Process_buf_length:
  assumes "in_place (Dup_src (heap_dup h))"
  shows "map_option length (Dup_buf (heap_dup (fst (Output_Process out h p))))
           = map_option length (Dup_buf (heap_dup h))"
proof (cases "Dup_buf (heap_dup h)")
  case None
  then show ?thesis
    by (simp add: Output_Process_def set_done_def src_Process_def Let_def split: prod.splits)
next
  case (Some b)
  have "length (snd (Dup_src (heap_dup h) w b)) = length b" for w
    using assms by (simp add: in_place_def)
  then show ?thesis using Some
    by (simp add: Output_Process_def set_done_def src_Process_def Let_def slice_def
          case_prod_beta)
qed

lemma Process_calls_keeps:
  "Dup_outs (heap_dup (fst (Process_calls h cs))) = Dup_outs (heap_dup h)
   \<and> Dup_src (heap_dup (fst (Process_calls h cs))) = Dup_src (heap_dup h)
   \<and> heap_next (fst (Process_calls h cs)) = heap_next h
   \<and> (in_place (Dup_src (heap_dup h)) \<longrightarrow>
        map_option length (Dup_buf (heap_dup (fst (Process_calls h cs))))
          = map_option length (Dup_buf (heap_dup h)))"
proof (induction cs arbitrary: h)
  case Nil
  then show ?case by simp
next
  case (Cons c cs)
  let ?h1 = "fst (Output_Process (fst c) h (snd c))"
  have fst_eq: "fst (Process_calls h (c # cs)) = fst (Process_calls ?h1 cs)"
    unfolding Process_calls_Cons by simp
  show ?case
    unfolding fst_eq
    using Cons.IH[of ?h1] Output_Process_keeps[of "fst c" h "snd c"]
      Output_Process_buf_length[of h "fst c" "snd c"]
    by simp
qed

lemma cycle_keeps:
  "Dup_outs (heap_dup (fst (cycle h calls))) = Dup_outs (heap_dup h)
   \<and> Dup_src (heap_dup (fst (cycle h calls))) = Dup_src (heap_dup h)
   \<and> heap_next (fst (cycle h calls)) = heap_next h
   \<and> (in_place (Dup_src (heap_dup h)) \<longrightarrow>
        map_option length (Dup_buf (heap_dup (fst (cycle h calls))))
          = map_option length (Dup_buf (heap_dup h)))"
  using Process_calls_keeps[of "h\<lparr>heap_dup := Dup_Tick (heap_dup h)\<rparr>" calls]
  by (simp add: cycle_def Dup_Tick_def)

lemma cycles_keeps:
  "Dup_outs (heap_dup (cycles h cs)) = Dup_outs (heap_dup h)
   \<and> Dup_src (heap_dup (cycles h cs)) = Dup_src (heap_dup h)
   \<and> heap_next (cycles h cs) = heap_next h
   \<and> (in_place (Dup_src (heap_dup h)) \<longrightarrow>
        map_option length (Dup_buf (heap_dup (cycles h cs)))
          = map_option length (Dup_buf (heap_dup h)))"
proof (induction cs arbitrary: h)
  case Nil
  then show ?case by simp
next
  case (Cons calls cs)
  show ?case
    using Cons.IH[of "fst (cycle h calls)"] cycle_keeps[of h calls] by simp
qed

lemma Output_Close_keeps:
  "Dup_src (Output_Close out d) = Dup_src d"
  "Dup_buf (Output_Close out d) = Dup_buf d"
  "Dup_done (Output_Close out d) = Dup_done d"
  by (simp_all add: Output_Close_def Let_def split: option.splits)

lemma cycle_copies:
  assumes outs: "length (Dup_outs (heap_dup h)) \<noteq> 1"
    and buf: "Dup_buf (heap_dup h) = Some b"
  shows "snd (cycle h calls)
           = map (\<lambda>c. copy (snd c) (snd (Dup_src (heap_dup h) (heap_up h) b))) calls
         \<and> heap_up (fst (cycle h calls))
             = (if calls = [] then heap_up h else fst (Dup_src (heap_dup h) (heap_up h) b))"
proof (cases calls)
  case Nil
  then show ?thesis by (simp add: cycle_def)
next
  case (Cons c cs)
  let ?h0 = "h\<lparr>heap_dup := Dup_Tick (heap_dup h)\<rparr>"
  let ?r = "snd (Dup_src (heap_dup h) (heap_up h) b)"
  have nd: "\<not> Dup_done (heap_dup ?h0)" by (simp add: Dup_Tick_def)
  have o: "length (Dup_outs (heap_dup ?h0)) \<noteq> 1" using outs by (simp add: Dup_Tick_def)
  have b: "Dup_buf (heap_dup ?h0) = Some b" using buf by (simp add: Dup_Tick_def)
  have first: "Output_Process (fst c) ?h0 (snd c)
      = (let h1 = fst (src_Process (set_done ?h0) b);
             b' = snd (src_Process (set_done ?h0) b)
         in (h1\<lparr>heap_dup := (heap_dup h1)\<lparr>Dup_buf := Some b'\<rparr>\<rparr>, copy (snd c) b'))"
    by (rule Output_Process_shared[OF nd o b])
  have sp: "snd (src_Process (set_done ?h0) b) = ?r"
    by (simp add: src_Process_fields set_done_def Dup_Tick_def)
  have p1: "snd (Output_Process (fst c) ?h0 (snd c)) = copy (snd c) ?r"
    unfolding first Let_def sp by simp
  have buf1: "Dup_buf (heap_dup (fst (Output_Process (fst c) ?h0 (snd c)))) = Some ?r"
    unfolding first Let_def sp by simp
  have up1: "heap_up (fst (Output_Process (fst c) ?h0 (snd c)))
      = fst (Dup_src (heap_dup h) (heap_up h) b)"
    unfolding first Let_def by (simp add: src_Process_fields set_done_def Dup_Tick_def)
  have outs1: "length (Dup_outs (heap_dup (fst (Output_Process (fst c) ?h0 (snd c))))) \<noteq> 1"
    using o by (simp add: Output_Process_keeps)
  have "snd (cycle h calls) = copy (snd c) ?r # map (\<lambda>x. copy (snd x) ?r) cs"
    unfolding cycle_def Cons Process_calls_first Let_def
    using p1 buf1 outs1 by (simp add: slice_def)
  moreover have "heap_up (fst (cycle h calls)) = fst (Dup_src (heap_dup h) (heap_up h) b)"
    unfolding cycle_def Cons Process_calls_first Let_def
    using up1 by simp
  ultimately show ?thesis using Cons by simp
qed

lemma cycle_shared:
  assumes outs: "length (Dup_outs (heap_dup h)) \<noteq> 1"
    and buf: "Dup_buf (heap_dup h) = Some b"
    and src: "in_place (Dup_src (heap_dup h))"
    and len: "\<forall>c\<in>set calls. length (snd c) = length b"
  shows "snd (cycle h calls) = map (\<lambda>c. snd (Dup_src (heap_dup h) (heap_up h) b)) calls"
proof -
  let ?r = "snd (Dup_src (heap_dup h) (heap_up h) b)"
  have r: "length ?r = length b" using src by (simp add: in_place_def)
  have "copy (snd x) ?r = ?r" if "x \<in> set calls" for x
    using that len r by (intro copy_same_length) simp
  then show ?thesis
    using cycle_copies[OF outs buf, of calls] by simp
qed

lemma apply_op_no_tick:
  assumes "x \<noteq> OpTick"
  shows "heap_evals (apply_op nSamples h x)
           = (if (\<exists>out p. x = OpProcess out p) \<and> \<not> Dup_done (heap_dup h)
              then Suc (heap_evals h) else heap_evals h)
         \<and> (Dup_done (heap_dup h) \<longrightarrow> Dup_done (heap_dup (apply_op nSamples h x)))
         \<and> ((\<exists>out p. x = OpProcess out p) \<longrightarrow> Dup_done (heap_dup (apply_op nSamples h x)))"
  using assms
  by (cases x)
     (simp_all add: Dup_SetSource_def new_Output_def Dup_Output_def Let_def
        Output_Close_keeps Output_Process_evals Output_Process_sets_done)

lemma evals_no_tick:
  assumes "OpTick \<notin> set ops"
  shows "heap_evals (foldl (apply_op nSamples) h ops)
           \<le> (if Dup_done (heap_dup h) then heap_evals h else Suc (heap_evals h))"
  using assms
proof (induction ops arbitrary: h)
  case Nil
  then show ?case by simp
next
  case (Cons x ops)
  then have x: "x \<noteq> OpTick" and ops: "OpTick \<notin> set ops" by auto
  let ?h' = "apply_op nSamples h x"
  note st = apply_op_no_tick[OF x, of nSamples h]
  have IH: "heap_evals (foldl (apply_op nSamples) ?h' ops)
      \<le> (if Dup_done (heap_dup ?h') then heap_evals ?h' else Suc (heap_evals ?h'))"
    by (rule Cons.IH[OF ops])
  show ?case
  proof (cases "Dup_done (heap_dup ?h')")
    case True
    then have "heap_evals (foldl (apply_op nSamples) ?h' ops) \<le> heap_evals ?h'"
      using IH by simp
    moreover have "heap_evals ?h'
        \<le> (if Dup_done (heap_dup h) then heap_evals h else Suc (heap_evals h))"
      using st by (simp split: if_splits)
    ultimately show ?thesis by simp
  next
    case False
    then have "\<not> Dup_done (heap_dup h)" and "heap_evals ?h' = heap_evals h"
      using st by (auto split: if_splits)
    then show ?thesis using IH False by simp
  qed
qed

lemma cycle_single:
  assumes "length (Dup_outs (heap_dup h)) = 1"
  shows "snd (cycle h calls)
           = (case calls of [] \<Rightarrow> []
              | c # cs \<Rightarrow> snd (Dup_src (heap_dup h) (heap_up h) (snd c)) # map snd cs)"
proof (cases calls)
  case Nil
  then show ?thesis by (simp add: cycle_def)
next
  case (Cons c cs)
  let ?h0 = "h\<lparr>heap_dup := Dup_Tick (heap_dup h)\<rparr>"
  have nd: "\<not> Dup_done (heap_dup ?h0)" by (simp add: Dup_Tick_def)
  have o: "length (Dup_outs (heap_dup ?h0)) = 1" using assms by (simp add: Dup_Tick_def)
  have first: "Output_Process (fst c) ?h0 (snd c) = src_Process (set_done ?h0) (snd c)"
    by (rule Output_Process_single[OF nd o])
  have p1: "snd (Output_Process (fst c) ?h0 (snd c))
      = snd (Dup_src (heap_dup h) (heap_up h) (snd c))"
    unfolding first by (simp add: src_Process_fields set_done_def Dup_Tick_def)
  have outs1: "length (Dup_outs (heap_dup (fst (Output_Process (fst c) ?h0 (snd c))))) = 1"
    using o by (simp add: Output_Process_keeps)
  show ?thesis
    unfolding cycle_def Cons Process_calls_first Let_def
    using p1 outs1 by simp
qed

text \<open>
  Claim C1. Between one \<^verbatim>\<open>Dup.Tick\<close> and the next, however many \<^verbatim>\<open>Output.Process\<close> calls are
  made and on whichever \<^verbatim>\<open>Output\<close>s, \<^verbatim>\<open>src.Process\<close> runs at most once (once if there is a
  call at all); this stays so when \<^verbatim>\<open>Output\<close>s are registered or closed or the source is
  set between the calls. When more than one \<^verbatim>\<open>Output\<close> is registered (the scratch buffer
  is then allocated), every call copies into its caller's buffer the result of that one
  evaluation, made on the scratch buffer, and the upstream state is the state after one
  evaluation; callers whose buffers have the length of the scratch buffer all hold that
  same result.
\<close>

theorem Dup_single_evaluation:
  "heap_evals (fst (cycle h calls)) \<le> Suc (heap_evals h)
   \<and> heap_evals (fst (cycle h calls)) = (if calls = [] then heap_evals h else Suc (heap_evals h))
   \<and> (OpTick \<notin> set ops \<longrightarrow>
        heap_evals (foldl (apply_op nSamples) (h\<lparr>heap_dup := Dup_Tick (heap_dup h)\<rparr>) ops)
          \<le> Suc (heap_evals h))
   \<and> (1 < length (Dup_outs (heap_dup h)) \<and> Dup_buf (heap_dup h) = Some b \<longrightarrow>
        snd (cycle h calls)
          = map (\<lambda>c. copy (snd c) (snd (Dup_src (heap_dup h) (heap_up h) b))) calls
        \<and> heap_up (fst (cycle h calls))
            = (if calls = [] then heap_up h else fst (Dup_src (heap_dup h) (heap_up h) b))
        \<and> (in_place (Dup_src (heap_dup h)) \<and> (\<forall>c\<in>set calls. length (snd c) = length b) \<longrightarrow>
             snd (cycle h calls) = map (\<lambda>c. snd (Dup_src (heap_dup h) (heap_up h) b)) calls))"
proof -
  have 1: "heap_evals (foldl (apply_op nSamples) (h\<lparr>heap_dup := Dup_Tick (heap_dup h)\<rparr>) ops)
      \<le> Suc (heap_evals h)" if "OpTick \<notin> set ops"
    using evals_no_tick[OF that, of nSamples "h\<lparr>heap_dup := Dup_Tick (heap_dup h)\<rparr>"]
    by (simp add: Dup_Tick_def)
  have 2: "snd (cycle h calls)
          = map (\<lambda>c. copy (snd c) (snd (Dup_src (heap_dup h) (heap_up h) b))) calls
        \<and> heap_up (fst (cycle h calls))
            = (if calls = [] then heap_up h else fst (Dup_src (heap_dup h) (heap_up h) b))"
    if "1 < length (Dup_outs (heap_dup h))" "Dup_buf (heap_dup h) = Some b"
    using that by (intro cycle_copies) auto
  have 3: "snd (cycle h calls) = map (\<lambda>c. snd (Dup_src (heap_dup h) (heap_up h) b)) calls"
    if "1 < length (Dup_outs (heap_dup h))" "Dup_buf (heap_dup h) = Some b"
      "in_place (Dup_src (heap_dup h))" "\<forall>c\<in>set calls. length (snd c) = length b"
    using that by (intro cycle_shared) auto
  have 4: "heap_evals (fst (cycle h calls))
      = (if calls = [] then heap_evals h else Suc (heap_evals h))"
    by (rule cycle_evals)
  from 4 have 5: "heap_evals (fst (cycle h calls)) \<le> Suc (heap_evals h)" by simp
  from 1 2 3 4 5 show ?thesis by blast
qed

theorem Dup_single_evaluation_witness:
  "1 < length (Dup_outs (heap_dup two_outputs)) \<and> Dup_buf (heap_dup two_outputs) = Some [0, 0]
   \<and> in_place (Dup_src (heap_dup two_outputs))
   \<and> length (snd (0 :: Output, [9, 9 :: Sample])) = length [0, 0 :: Sample]
   \<and> OpTick \<notin> set [OpProcess 0 [9, 9], OpOutput, OpProcess 2 [7, 7], OpClose 0 :: nat op]
   \<and> heap_evals (foldl (apply_op 2) (two_outputs\<lparr>heap_dup := Dup_Tick (heap_dup two_outputs)\<rparr>)
        [OpProcess 0 [9, 9], OpOutput, OpProcess 2 [7, 7], OpClose 0]) \<le> Suc (heap_evals two_outputs)
   \<and> heap_evals (fst (cycle two_outputs [(0, [9, 9]), (1, [8, 8]), (0, [7, 7])]))
       = Suc (heap_evals two_outputs)
   \<and> heap_up (fst (cycle two_outputs [(0, [9, 9]), (1, [8, 8]), (0, [7, 7])])) = 6
   \<and> snd (cycle two_outputs [(0, [9, 9]), (1, [8, 8]), (0, [7, 7])]) = [[5, 5], [5, 5], [5, 5]]"
proof -
  let ?calls = "[(0 :: Output, [9, 9 :: Sample]), (1, [8, 8]), (0, [7, 7])]"
  let ?ops = "[OpProcess 0 [9, 9], OpOutput, OpProcess 2 [7, 7], OpClose 0 :: nat op]"
  have src: "in_place (Dup_src (heap_dup two_outputs))"
    by (simp add: two_outputs_def in_place_def counter_src_def)
  have hyp: "1 < length (Dup_outs (heap_dup two_outputs))
      \<and> Dup_buf (heap_dup two_outputs) = Some [0, 0]"
    by (simp add: two_outputs_def)
  have hyp2: "in_place (Dup_src (heap_dup two_outputs))
      \<and> (\<forall>c\<in>set ?calls. length (snd c) = length [0, 0 :: Sample])"
    using src by simp
  have nt: "OpTick \<notin> set ?ops" by simp
  note inst = Dup_single_evaluation[of two_outputs ?calls ?ops 2 "[0, 0]"]
  from inst have ev: "heap_evals (fst (cycle two_outputs ?calls)) = Suc (heap_evals two_outputs)"
    by simp
  from inst nt
  have ev2: "heap_evals (foldl (apply_op 2) (two_outputs\<lparr>heap_dup := Dup_Tick (heap_dup two_outputs)\<rparr>)
        ?ops) \<le> Suc (heap_evals two_outputs)"
    by blast
  from inst hyp hyp2
  have "snd (cycle two_outputs ?calls)
      = map (\<lambda>c. snd (Dup_src (heap_dup two_outputs) (heap_up two_outputs) [0, 0])) ?calls"
    by blast
  then have res: "snd (cycle two_outputs ?calls) = [[5, 5], [5, 5], [5, 5]]"
    by (simp add: two_outputs_def counter_src_def)
  from inst hyp
  have "heap_up (fst (cycle two_outputs ?calls))
      = (if ?calls = [] then heap_up two_outputs
         else fst (Dup_src (heap_dup two_outputs) (heap_up two_outputs) [0, 0]))"
    by blast
  then have up: "heap_up (fst (cycle two_outputs ?calls)) = 6"
    by (simp add: two_outputs_def counter_src_def)
  from ev ev2 res up hyp src nt show ?thesis by simp
qed

lemma Close_index_remove1:
  assumes "Close_index out outs k = Some i"
  shows "k \<le> i \<and> i - k < length outs
         \<and> take (i - k) outs @ drop (Suc (i - k)) outs = remove1 out outs"
  using assms
proof (induction outs arbitrary: k)
  case Nil
  then show ?case by simp
next
  case (Cons o2 rest)
  show ?case
  proof (cases "out = o2")
    case True
    then show ?thesis using Cons.prems by simp
  next
    case False
    then have "Close_index out rest (Suc k) = Some i" using Cons.prems by simp
    from Cons.IH[OF this] have "Suc k \<le> i" "i - Suc k < length rest"
      "take (i - Suc k) rest @ drop (Suc (i - Suc k)) rest = remove1 out rest"
      by blast+
    moreover from \<open>Suc k \<le> i\<close> have "i - k = Suc (i - Suc k)" by simp
    ultimately show ?thesis using False by simp
  qed
qed

lemma Close_index_None: "Close_index out outs k = None \<longleftrightarrow> out \<notin> set outs"
  by (induction outs arbitrary: k) auto

lemma Output_Close_outs: "Dup_outs (Output_Close out d) = remove1 out (Dup_outs d)"
proof (cases "Close_index out (Dup_outs d) 0")
  case None
  then have "out \<notin> set (Dup_outs d)" by (simp add: Close_index_None)
  then show ?thesis using None by (simp add: Output_Close_def remove1_idem)
next
  case (Some i)
  from Close_index_remove1[OF Some]
  have i: "i < length (Dup_outs d)"
    and r: "take i (Dup_outs d) @ drop (Suc i) (Dup_outs d) = remove1 out (Dup_outs d)"
    by simp_all
  let ?outs = "Dup_outs d"
  have c: "copy (drop i ?outs) (drop (Suc i) ?outs)
      = drop (Suc i) ?outs @ drop (length ?outs - Suc i) (drop i ?outs)"
    using i by (simp add: copy_def)
  have l: "length (take i ?outs @ drop (Suc i) ?outs) = length ?outs - 1"
    using i by simp
  have "take (length ?outs - 1)
          (take i ?outs @ drop (Suc i) ?outs @ drop (length ?outs - Suc i) (drop i ?outs))
      = take i ?outs @ drop (Suc i) ?outs"
    using l by (metis append.assoc append_eq_conv_conj)
  moreover have "length (take i ?outs @ copy (drop i ?outs) (drop (Suc i) ?outs)) = length ?outs"
    using i by (simp add: length_copy)
  ultimately show ?thesis
    using Some r c by (simp add: Output_Close_def Let_def)
qed

text \<open>
  Claim C7. \<^verbatim>\<open>Output.Close\<close> on a registered \<^verbatim>\<open>Output\<close> of a \<^verbatim>\<open>Dup\<close> removes that one and
  keeps the others, in their order. In every later cycle \<^verbatim>\<open>src.Process\<close> runs at most
  once. When the \<^verbatim>\<open>Dup\<close> had two \<^verbatim>\<open>Output\<close>s and one remains, the first call of a cycle has
  the upstream write into the caller's buffer and the later calls of the cycle leave their
  buffers as they are; when it had more than two, every call leaves in its caller's
  buffer the result of the one evaluation of the cycle, made on the scratch buffer.
\<close>

theorem Output_Close_contract:
  "distinct (Dup_outs (heap_dup h)) \<and> out \<in> set (Dup_outs (heap_dup h)) \<longrightarrow>
   (let hc = h\<lparr>heap_dup := Output_Close out (heap_dup h)\<rparr>;
        h1 = cycles hc earlier
    in Dup_outs (heap_dup hc) = filter (\<lambda>x. x \<noteq> out) (Dup_outs (heap_dup h))
       \<and> set (Dup_outs (heap_dup hc)) = set (Dup_outs (heap_dup h)) - {out}
       \<and> length (Dup_outs (heap_dup hc)) = length (Dup_outs (heap_dup h)) - 1
       \<and> Dup_outs (heap_dup h1) = Dup_outs (heap_dup hc)
       \<and> heap_evals (fst (cycle h1 calls)) \<le> Suc (heap_evals h1)
       \<and> (length (Dup_outs (heap_dup h)) = 2 \<longrightarrow>
            snd (cycle h1 calls)
              = (case calls of [] \<Rightarrow> []
                 | c # cs \<Rightarrow> snd (Dup_src (heap_dup h) (heap_up h1) (snd c)) # map snd cs))
       \<and> (2 < length (Dup_outs (heap_dup h)) \<and> Dup_buf (heap_dup h) = Some b
             \<and> in_place (Dup_src (heap_dup h))
             \<and> (\<forall>c\<in>set calls. length (snd c) = length b) \<longrightarrow>
            (\<exists>b1. Dup_buf (heap_dup h1) = Some b1 \<and> length b1 = length b
               \<and> snd (cycle h1 calls)
                   = map (\<lambda>c. snd (Dup_src (heap_dup h) (heap_up h1) b1)) calls)))"
proof (intro impI)
  assume a: "distinct (Dup_outs (heap_dup h)) \<and> out \<in> set (Dup_outs (heap_dup h))"
  then have dist: "distinct (Dup_outs (heap_dup h))" and mem: "out \<in> set (Dup_outs (heap_dup h))"
    by blast+
  let ?hc = "h\<lparr>heap_dup := Output_Close out (heap_dup h)\<rparr>"
  let ?h1 = "cycles ?hc earlier"
  have outs: "Dup_outs (heap_dup ?hc) = remove1 out (Dup_outs (heap_dup h))"
    by (simp add: Output_Close_outs)
  have 1: "Dup_outs (heap_dup ?hc) = filter (\<lambda>x. x \<noteq> out) (Dup_outs (heap_dup h))"
    unfolding outs using dist by (simp add: distinct_remove1_removeAll removeAll_filter)
  have 2: "set (Dup_outs (heap_dup ?hc)) = set (Dup_outs (heap_dup h)) - {out}"
    unfolding outs using dist by simp
  have 3: "length (Dup_outs (heap_dup ?hc)) = length (Dup_outs (heap_dup h)) - 1"
    unfolding outs using mem by (simp add: length_remove1)
  note keep = cycles_keeps[of ?hc earlier]
  from keep have 4: "Dup_outs (heap_dup ?h1) = Dup_outs (heap_dup ?hc)" by blast
  from keep have src1: "Dup_src (heap_dup ?h1) = Dup_src (heap_dup h)"
    by (simp add: Output_Close_keeps)
  have 5: "heap_evals (fst (cycle ?h1 calls)) \<le> Suc (heap_evals ?h1)"
    by (simp add: cycle_evals)
  have 6: "snd (cycle ?h1 calls)
      = (case calls of [] \<Rightarrow> []
         | c # cs \<Rightarrow> snd (Dup_src (heap_dup h) (heap_up ?h1) (snd c)) # map snd cs)"
    if "length (Dup_outs (heap_dup h)) = 2"
  proof -
    have "length (Dup_outs (heap_dup ?h1)) = 1" unfolding 4 3 using that by simp
    from cycle_single[OF this, of calls] show ?thesis unfolding src1 .
  qed
  have 7: "\<exists>b1. Dup_buf (heap_dup ?h1) = Some b1 \<and> length b1 = length b
               \<and> snd (cycle ?h1 calls)
                   = map (\<lambda>c. snd (Dup_src (heap_dup h) (heap_up ?h1) b1)) calls"
    if h: "2 < length (Dup_outs (heap_dup h)) \<and> Dup_buf (heap_dup h) = Some b
             \<and> in_place (Dup_src (heap_dup h))
             \<and> (\<forall>c\<in>set calls. length (snd c) = length b)"
  proof -
    from h have ip: "in_place (Dup_src (heap_dup ?hc))" by (simp add: Output_Close_keeps)
    with keep have "map_option length (Dup_buf (heap_dup ?h1))
        = map_option length (Dup_buf (heap_dup ?hc))" by blast
    also have "\<dots> = Some (length b)" using h by (simp add: Output_Close_keeps)
    finally obtain b1 where b1: "Dup_buf (heap_dup ?h1) = Some b1" "length b1 = length b"
      by auto
    from h have "2 < length (Dup_outs (heap_dup h))" by blast
    then have o: "length (Dup_outs (heap_dup ?h1)) \<noteq> 1" unfolding 4 3 by arith
    have ip1: "in_place (Dup_src (heap_dup ?h1))" unfolding src1 using h by blast
    have len: "\<forall>c\<in>set calls. length (snd c) = length b1" using h b1(2) by simp
    from cycle_shared[OF o b1(1) ip1 len] b1 show ?thesis unfolding src1 by blast
  qed
  from 1 2 3 4 5 6 7
  show "let hc = h\<lparr>heap_dup := Output_Close out (heap_dup h)\<rparr>;
        h1 = cycles hc earlier
    in Dup_outs (heap_dup hc) = filter (\<lambda>x. x \<noteq> out) (Dup_outs (heap_dup h))
       \<and> set (Dup_outs (heap_dup hc)) = set (Dup_outs (heap_dup h)) - {out}
       \<and> length (Dup_outs (heap_dup hc)) = length (Dup_outs (heap_dup h)) - 1
       \<and> Dup_outs (heap_dup h1) = Dup_outs (heap_dup hc)
       \<and> heap_evals (fst (cycle h1 calls)) \<le> Suc (heap_evals h1)
       \<and> (length (Dup_outs (heap_dup h)) = 2 \<longrightarrow>
            snd (cycle h1 calls)
              = (case calls of [] \<Rightarrow> []
                 | c # cs \<Rightarrow> snd (Dup_src (heap_dup h) (heap_up h1) (snd c)) # map snd cs))
       \<and> (2 < length (Dup_outs (heap_dup h)) \<and> Dup_buf (heap_dup h) = Some b
             \<and> in_place (Dup_src (heap_dup h))
             \<and> (\<forall>c\<in>set calls. length (snd c) = length b) \<longrightarrow>
            (\<exists>b1. Dup_buf (heap_dup h1) = Some b1 \<and> length b1 = length b
               \<and> snd (cycle h1 calls)
                   = map (\<lambda>c. snd (Dup_src (heap_dup h) (heap_up h1) b1)) calls))"
    unfolding Let_def by blast
qed

lemma in_place_counter_src: "in_place counter_src"
  by (simp add: in_place_def counter_src_def)

theorem Output_Close_contract_witness:
  "distinct (Dup_outs (heap_dup three_outputs)) \<and> 1 \<in> set (Dup_outs (heap_dup three_outputs))
   \<and> 2 < length (Dup_outs (heap_dup three_outputs))
   \<and> Dup_buf (heap_dup three_outputs) = Some [0, 0]
   \<and> in_place (Dup_src (heap_dup three_outputs))
   \<and> Dup_outs (heap_dup (three_outputs\<lparr>heap_dup := Output_Close 1 (heap_dup three_outputs)\<rparr>))
       = [0, 2]
   \<and> heap_evals (cycles (three_outputs\<lparr>heap_dup := Output_Close 1 (heap_dup three_outputs)\<rparr>)
        [[(0, [9, 9]), (2, [9, 9])]]) = 1
   \<and> heap_evals (fst (cycle
        (cycles (three_outputs\<lparr>heap_dup := Output_Close 1 (heap_dup three_outputs)\<rparr>)
           [[(0, [9, 9]), (2, [9, 9])]])
        [(2, [7, 7]), (0, [7, 7])])) \<le> 2
   \<and> snd (cycle
        (cycles (three_outputs\<lparr>heap_dup := Output_Close 1 (heap_dup three_outputs)\<rparr>)
           [[(0, [9, 9]), (2, [9, 9])]])
        [(2, [7, 7]), (0, [7, 7])]) = [[6, 6], [6, 6]]
   \<and> distinct (Dup_outs (heap_dup two_outputs)) \<and> 0 \<in> set (Dup_outs (heap_dup two_outputs))
   \<and> length (Dup_outs (heap_dup two_outputs)) = 2
   \<and> Dup_outs (heap_dup (two_outputs\<lparr>heap_dup := Output_Close 0 (heap_dup two_outputs)\<rparr>)) = [1]
   \<and> snd (cycle (cycles (two_outputs\<lparr>heap_dup := Output_Close 0 (heap_dup two_outputs)\<rparr>) [])
        [(1, [7, 7]), (1, [3, 3])]) = [[5, 5], [3, 3]]"
proof -
  let ?hc = "three_outputs\<lparr>heap_dup := Output_Close 1 (heap_dup three_outputs)\<rparr>"
  let ?h1 = "cycles ?hc [[(0, [9, 9]), (2, [9, 9])]]"
  let ?calls = "[(2 :: Output, [7, 7 :: Sample]), (0, [7, 7])]"
  have h3: "distinct (Dup_outs (heap_dup three_outputs))" "1 \<in> set (Dup_outs (heap_dup three_outputs))"
    "2 < length (Dup_outs (heap_dup three_outputs))" "1 < length (Dup_outs (heap_dup three_outputs))"
    "Dup_buf (heap_dup three_outputs) = Some [0, 0]" "in_place (Dup_src (heap_dup three_outputs))"
    "Dup_outs (heap_dup three_outputs) = [0, 1, 2]"
    "Dup_src (heap_dup three_outputs) = counter_src"
    by (simp_all add: three_outputs_def in_place_counter_src)
  have len: "\<forall>c\<in>set ?calls. length (snd c) = length [0, 0 :: Sample]" by simp
  note A = Output_Close_contract[of three_outputs 1 "[[(0, [9, 9]), (2, [9, 9])]]" ?calls "[0, 0]",
      unfolded Let_def, THEN mp, OF conjI[OF h3(1) h3(2)]]
  from A have a1: "Dup_outs (heap_dup ?hc) = filter (\<lambda>x. x \<noteq> 1) (Dup_outs (heap_dup three_outputs))"
    by blast
  from A have a2: "heap_evals (fst (cycle ?h1 ?calls)) \<le> Suc (heap_evals ?h1)" by blast
  from A h3 len obtain b1 where b1: "Dup_buf (heap_dup ?h1) = Some b1" "length b1 = length [0, 0 :: Sample]"
    "snd (cycle ?h1 ?calls) = map (\<lambda>c. snd (Dup_src (heap_dup three_outputs) (heap_up ?h1) b1)) ?calls"
    by blast
  have outs: "Dup_outs (heap_dup ?hc) = [0, 2]" unfolding a1 h3(7) by simp
  have hc: "?hc = \<lparr>heap_dup = \<lparr>Dup_src = counter_src, Dup_outs = [0, 2], Dup_buf = Some [0, 0],
                  Dup_done = True\<rparr>, heap_up = 5, heap_next = 3, heap_evals = 0\<rparr>"
    using outs by (simp add: three_outputs_def Output_Close_keeps)
  have h1: "heap_up ?h1 = 6 \<and> heap_evals ?h1 = 1"
    unfolding hc
    by (simp add: cycle_def Dup_Tick_def Output_Process_def set_done_def src_Process_def
        slice_def copy_def counter_src_def)
  have "map (\<lambda>_. 6 :: Sample) b1 = [6, 6]"
    using b1(2) by (simp add: map_replicate_const numeral_2_eq_2)
  then have res: "snd (cycle ?h1 ?calls) = [[6, 6], [6, 6]]"
    using b1(3) h1 h3(8) by (simp add: counter_src_def)
  let ?gc = "two_outputs\<lparr>heap_dup := Output_Close 0 (heap_dup two_outputs)\<rparr>"
  have h2: "distinct (Dup_outs (heap_dup two_outputs))" "0 \<in> set (Dup_outs (heap_dup two_outputs))"
    "length (Dup_outs (heap_dup two_outputs)) = 2" "1 < length (Dup_outs (heap_dup two_outputs))"
    "Dup_outs (heap_dup two_outputs) = [0, 1]" "Dup_src (heap_dup two_outputs) = counter_src"
    "heap_up two_outputs = 5"
    by (simp_all add: two_outputs_def)
  note B = Output_Close_contract[of two_outputs 0 "[]" "[(1, [7, 7]), (1, [3, 3])]" "[]",
      unfolded Let_def, THEN mp, OF conjI[OF h2(1) h2(2)]]
  from B have b0: "Dup_outs (heap_dup ?gc) = filter (\<lambda>x. x \<noteq> 0) (Dup_outs (heap_dup two_outputs))"
    by blast
  have outs2: "Dup_outs (heap_dup ?gc) = [1]" unfolding b0 h2(5) by simp
  from B h2(3)
  have "snd (cycle (cycles ?gc []) [(1, [7, 7]), (1, [3, 3])])
      = (case [(1 :: Output, [7, 7 :: Sample]), (1, [3, 3])] of [] \<Rightarrow> []
         | c # cs \<Rightarrow> snd (Dup_src (heap_dup two_outputs) (heap_up (cycles ?gc [])) (snd c))
                      # map snd cs)"
    by blast
  then have res2: "snd (cycle (cycles ?gc []) [(1, [7, 7]), (1, [3, 3])]) = [[5, 5], [3, 3]]"
    using h2(6,7) by (simp add: counter_src_def)
  from h1 a2 have ev: "heap_evals (fst (cycle ?h1 ?calls)) \<le> 2" by simp
  from h3 h2 outs h1 ev res outs2 res2 show ?thesis by simp
qed

lemma Dup_inv_NewDup:
  "in_place src \<Longrightarrow>
     Dup_inv nSamples \<lparr>heap_dup = NewDup src, heap_up = w, heap_next = 0, heap_evals = 0\<rparr>"
  by (simp add: Dup_inv_def NewDup_def)

lemma Dup_inv_apply_op:
  assumes inv: "Dup_inv nSamples h" and src: "\<And>p. x = OpSetSource p \<Longrightarrow> in_place p"
  shows "Dup_inv nSamples (apply_op nSamples h x)"
proof (cases x)
  case OpTick
  then show ?thesis using inv by (simp add: Dup_inv_def Dup_Tick_def)
next
  case (OpSetSource p)
  then show ?thesis using inv src by (simp add: Dup_inv_def Dup_SetSource_def)
next
  case OpOutput
  then show ?thesis using inv
    by (auto simp: Dup_inv_def new_Output_def Dup_Output_def Let_def less_Suc_eq)
next
  case (OpProcess out p)
  from inv have ip: "in_place (Dup_src (heap_dup h))" by (simp add: Dup_inv_def)
  have "map_option length (Dup_buf (heap_dup (fst (Output_Process out h p))))
      = map_option length (Dup_buf (heap_dup h))"
    by (rule Output_Process_buf_length[OF ip])
  then have b: "(\<forall>b. Dup_buf (heap_dup (fst (Output_Process out h p))) = Some b \<longrightarrow>
        length b = nSamples)
      \<and> (Dup_buf (heap_dup (fst (Output_Process out h p))) = None
           \<longleftrightarrow> Dup_buf (heap_dup h) = None)"
    using inv
    by (cases "Dup_buf (heap_dup h)";
        cases "Dup_buf (heap_dup (fst (Output_Process out h p)))") (auto simp: Dup_inv_def)
  show ?thesis
    using inv b OpProcess unfolding Dup_inv_def
    by (simp add: Output_Process_keeps)
next
  case (OpClose out)
  have "length (remove1 out (Dup_outs (heap_dup h))) \<le> length (Dup_outs (heap_dup h))"
    by (simp add: length_remove1)
  then show ?thesis using inv OpClose
    by (auto simp: Dup_inv_def Output_Close_outs Output_Close_keeps dest: notin_set_remove1)
qed

lemma Dup_inv_reachable:
  assumes "Dup_inv nSamples h" and "\<forall>p. OpSetSource p \<in> set ops \<longrightarrow> in_place p"
  shows "Dup_inv nSamples (foldl (apply_op nSamples) h ops)"
  using assms
proof (induction ops arbitrary: h)
  case Nil
  then show ?case by simp
next
  case (Cons x ops)
  have "Dup_inv nSamples (apply_op nSamples h x)"
    using Cons.prems by (intro Dup_inv_apply_op) auto
  then show ?case using Cons.prems(2) by (simp add: Cons.IH)
qed

end
